theory Spec2Isabelle
  imports Main "HOL-Library.Product_Lexorder"
begin

section \<open>Data model of the forest (2D build of p4est\_algorithms.c)\<close>

text \<open>
  The file \<^verbatim>\<open>p4est_algorithms.c\<close> is compiled without \<^verbatim>\<open>P4_TO_P8\<close>, so
  quadrants carry two coordinates.  Coordinates (\<^verbatim>\<open>p4est_qcoord_t\<close>), tree
  indices (\<^verbatim>\<open>p4est_topidx_t\<close>), local and global counts (\<^verbatim>\<open>p4est_locidx_t\<close>,
  \<^verbatim>\<open>p4est_gloidx_t\<close>) are modelled as mathematical integers; every value that
  occurs is bounded by the root length or by the global number of quadrants, which
  the C types hold by the library's own assertions.
\<close>

type_synonym p4est_qcoord_t = int
type_synonym p4est_topidx_t = int
type_synonym p4est_locidx_t = int
type_synonym p4est_gloidx_t = int

text \<open>The constants of \<^verbatim>\<open>p4est.h\<close> (2D): the deepest level, the deepest level a
  quadrant may have, and the length of the root.\<close>

definition P4EST_MAXLEVEL :: nat where
  "P4EST_MAXLEVEL = 30"

definition P4EST_QMAXLEVEL :: nat where
  "P4EST_QMAXLEVEL = 29"

definition P4EST_ROOT_LEN :: p4est_qcoord_t where
  "P4EST_ROOT_LEN = 2 ^ P4EST_MAXLEVEL"

definition P4EST_QUADRANT_LEN :: "int \<Rightarrow> p4est_qcoord_t" where
  "P4EST_QUADRANT_LEN l = 2 ^ (P4EST_MAXLEVEL - nat l)"

text \<open>
  The payload union \<^verbatim>\<open>p\<close> of a quadrant.  A leaf of a tree holds \<^verbatim>\<open>user_data\<close>: the
  NULL pointer (\<open>None\<close>) or a block of the user-data pool, modelled by the bytes it
  holds (a leaf owns its block exclusively).  Quadrants in overlap arrays hold
  \<^verbatim>\<open>piggy2\<close>: the tag \<^verbatim>\<open>which_tree\<close> and \<^verbatim>\<open>from_tree\<close>.
\<close>

datatype qdata = user_data "nat list option" | piggy2 p4est_topidx_t p4est_topidx_t

record quadrant =
  q_x :: p4est_qcoord_t
  q_y :: p4est_qcoord_t
  q_level :: int
  q_p :: qdata

fun which_tree :: "qdata \<Rightarrow> p4est_topidx_t" where
  "which_tree (piggy2 t f) = t"
| "which_tree (user_data u) = -1"

text \<open>\<^verbatim>\<open>P4EST_QUADRANT_INIT\<close> (debug build): every byte of the quadrant is set to
  \<^verbatim>\<open>0xff\<close>, so every field reads \<open>-1\<close>.\<close>

definition P4EST_QUADRANT_INIT :: quadrant where
  "P4EST_QUADRANT_INIT = \<lparr>q_x = -1, q_y = -1, q_level = -1, q_p = piggy2 (-1) (-1)\<rparr>"

record tree =
  quadrants :: "quadrant list"
  first_desc :: quadrant
  last_desc :: quadrant
  quadrants_offset :: p4est_locidx_t
  quadrants_per_level :: "nat \<Rightarrow> p4est_locidx_t"
  maxlevel :: int

text \<open>
  The forest as one process holds it.  \<open>user_data_pool\<close> is the number of live blocks
  of the user-data pool (\<^verbatim>\<open>elem_count\<close>).  \<open>init_calls\<close> is a ghost field: the
  invocations of the user's initializer, in order.
\<close>

record p4est =
  mpisize :: int
  mpirank :: int
  data_size :: nat
  first_local_tree :: p4est_topidx_t
  last_local_tree :: p4est_topidx_t
  local_num_quadrants :: p4est_locidx_t
  global_num_quadrants :: p4est_gloidx_t
  global_first_quadrant :: "p4est_gloidx_t list"
  global_first_position :: "quadrant list"
  trees :: "tree list"
  user_data_pool :: nat
  init_calls :: "(p4est_topidx_t \<times> quadrant) list"

text \<open>The user's initializer: NULL (\<open>None\<close>) or a callback that reads the forest, the
  tree index and the quadrant and returns the bytes it writes into the payload.\<close>

type_synonym p4est_init_t = "(p4est \<Rightarrow> p4est_topidx_t \<Rightarrow> quadrant \<Rightarrow> nat list) option"

section \<open>Quadrant predicates of p4est\_bits.c used by the algorithms\<close>

text \<open>Modelled from the spec: \<^verbatim>\<open>p4est_bits.c\<close> is not among the sources.  Section 3:
  a valid quadrant has coordinates that are multiples of \<open>LEN(level)\<close> inside
  \<open>[0, ROOT_LEN)\<close>; an extended quadrant relaxes the range to the 3x3 neighbourhood
  of the root.\<close>

definition p4est_quadrant_is_inside_root :: "quadrant \<Rightarrow> bool" where
  "p4est_quadrant_is_inside_root q \<longleftrightarrow>
     0 \<le> q_x q \<and> q_x q < P4EST_ROOT_LEN \<and> 0 \<le> q_y q \<and> q_y q < P4EST_ROOT_LEN"

definition p4est_quadrant_is_inside_3x3 :: "quadrant \<Rightarrow> bool" where
  "p4est_quadrant_is_inside_3x3 q \<longleftrightarrow>
     - P4EST_ROOT_LEN \<le> q_x q \<and> q_x q < 2 * P4EST_ROOT_LEN \<and>
     - P4EST_ROOT_LEN \<le> q_y q \<and> q_y q < 2 * P4EST_ROOT_LEN"

definition level_aligned :: "quadrant \<Rightarrow> bool" where
  "level_aligned q \<longleftrightarrow>
     0 \<le> q_level q \<and> q_level q \<le> int P4EST_QMAXLEVEL \<and>
     q_x q mod P4EST_QUADRANT_LEN (q_level q) = 0 \<and>
     q_y q mod P4EST_QUADRANT_LEN (q_level q) = 0"

definition p4est_quadrant_is_valid :: "quadrant \<Rightarrow> bool" where
  "p4est_quadrant_is_valid q \<longleftrightarrow> level_aligned q \<and> p4est_quadrant_is_inside_root q"

definition p4est_quadrant_is_extended :: "quadrant \<Rightarrow> bool" where
  "p4est_quadrant_is_extended q \<longleftrightarrow> level_aligned q \<and> p4est_quadrant_is_inside_3x3 q"

section \<open>Payload allocation: p4est\_quadrant\_init\_data, p4est\_quadrant\_free\_data\<close>

text \<open>
  \<^verbatim>\<open>p4est_quadrant_init_data\<close> (lines 74-89).  The block returned by
  \<^verbatim>\<open>sc_mempool_alloc\<close> is uninitialised; it is modelled as \<open>data_size\<close> zero bytes.
  The callback sees the quadrant with its payload pointer already set.
\<close>

definition p4est_quadrant_init_data ::
  "p4est \<Rightarrow> p4est_topidx_t \<Rightarrow> quadrant \<Rightarrow> p4est_init_t \<Rightarrow> p4est \<times> quadrant" where
  "p4est_quadrant_init_data p4 wt quad init_fn =
     (let (p4a, qa) =
            (if data_size p4 > 0
             then (p4\<lparr>user_data_pool := user_data_pool p4 + 1\<rparr>,
                   quad\<lparr>q_p := user_data (Some (replicate (data_size p4) 0))\<rparr>)
             else (p4, quad\<lparr>q_p := user_data None\<rparr>))
      in case init_fn of
           Some f \<Rightarrow>
             if p4est_quadrant_is_inside_root qa
             then (p4a\<lparr>init_calls := init_calls p4a @ [(wt, qa)]\<rparr>,
                   if data_size p4 > 0 then qa\<lparr>q_p := user_data (Some (f p4a wt qa))\<rparr> else qa)
             else (p4a, qa)
         | None \<Rightarrow> (p4a, qa))"

text \<open>\<^verbatim>\<open>p4est_quadrant_free_data\<close> (lines 91-100).\<close>

definition p4est_quadrant_free_data :: "p4est \<Rightarrow> quadrant \<Rightarrow> p4est \<times> quadrant" where
  "p4est_quadrant_free_data p4 quad =
     ((if data_size p4 > 0 then p4\<lparr>user_data_pool := user_data_pool p4 - 1\<rparr> else p4),
      quad\<lparr>q_p := user_data None\<rparr>)"

section \<open>Morton order of quadrants (p4est\_bits.c)\<close>

text \<open>Modelled from the spec: \<^verbatim>\<open>p4est_bits.c\<close> is not among the sources.  The Morton
  index interleaves the bits of the coordinates, the bit of \<open>y\<close> above the bit of \<open>x\<close>.
  \<open>morton n a b\<close> interleaves the low \<open>n\<close> bits; on a negative coordinate (an extended
  quadrant) these are the bits of its two's complement representation.\<close>

fun morton :: "nat \<Rightarrow> int \<Rightarrow> int \<Rightarrow> int" where
  "morton 0 a b = 0"
| "morton (Suc n) a b = 4 * morton n (a div 2) (b div 2) + 2 * (b mod 2) + a mod 2"

text \<open>Modelled from the spec: \<^verbatim>\<open>p4est_quadrant_linear_id\<close>, the Morton index of the
  prefix of a quadrant at a level (the coordinates shifted right by
  \<open>MAXLEVEL - level\<close>).\<close>

definition p4est_quadrant_linear_id :: "quadrant \<Rightarrow> int \<Rightarrow> int" where
  "p4est_quadrant_linear_id q l =
     morton (nat l + 2) (q_x q div P4EST_QUADRANT_LEN l) (q_y q div P4EST_QUADRANT_LEN l)"

text \<open>Modelled from the spec (section 3, Ordering): quadrants compare by Morton index
  of their coordinates; ties break by level, the ancestor first.  The result is
  negative, zero or positive as for \<^verbatim>\<open>qsort\<close>.  The index is taken over the
  \<open>MAXLEVEL + 2\<close> bits of a coordinate, so that extended quadrants compare too.\<close>

definition morton_index :: "quadrant \<Rightarrow> int" where
  "morton_index q = morton (P4EST_MAXLEVEL + 2) (q_x q) (q_y q)"

definition p4est_quadrant_compare :: "quadrant \<Rightarrow> quadrant \<Rightarrow> int" where
  "p4est_quadrant_compare q1 q2 =
     (if q_x q1 = q_x q2 \<and> q_y q1 = q_y q2 then q_level q1 - q_level q2
      else if morton_index q1 < morton_index q2 then -1 else 1)"

text \<open>Modelled from the spec: \<^verbatim>\<open>p4est_quadrant_is_equal\<close> compares coordinates and
  level, not the payload.\<close>

definition p4est_quadrant_is_equal :: "quadrant \<Rightarrow> quadrant \<Rightarrow> bool" where
  "p4est_quadrant_is_equal q1 q2 \<longleftrightarrow>
     q_level q1 = q_level q2 \<and> q_x q1 = q_x q2 \<and> q_y q1 = q_y q2"

text \<open>Modelled from the spec (section 4.1): \<open>is_ancestor(a, b)\<close> is strict:
  \<open>a.level < b.level\<close> and \<open>b\<close> lies inside \<open>a\<close>, that is, the coordinates agree
  above the bits of \<open>LEN(a.level)\<close>.\<close>

definition p4est_quadrant_is_ancestor :: "quadrant \<Rightarrow> quadrant \<Rightarrow> bool" where
  "p4est_quadrant_is_ancestor q r \<longleftrightarrow>
     q_level q < q_level r \<and>
     q_x q div P4EST_QUADRANT_LEN (q_level q) = q_x r div P4EST_QUADRANT_LEN (q_level q) \<and>
     q_y q div P4EST_QUADRANT_LEN (q_level q) = q_y r div P4EST_QUADRANT_LEN (q_level q)"

text \<open>Modelled from the spec (section 4.1): \<open>first_descendant\<close> and \<open>last_descendant\<close>
  extend a quadrant to a level with all-zero and all-one trailing bits.\<close>

definition p4est_quadrant_first_descendant :: "quadrant \<Rightarrow> int \<Rightarrow> quadrant" where
  "p4est_quadrant_first_descendant q l = q\<lparr>q_level := l\<rparr>"

definition p4est_quadrant_last_descendant :: "quadrant \<Rightarrow> int \<Rightarrow> quadrant" where
  "p4est_quadrant_last_descendant q l =
     (let shift = P4EST_QUADRANT_LEN (q_level q) - P4EST_QUADRANT_LEN l
      in q\<lparr>q_x := q_x q + shift, q_y := q_y q + shift, q_level := l\<rparr>)"

text \<open>Modelled from the spec (sections 3 and 4.1): \<open>is_next(a, b)\<close> holds when \<open>b\<close>
  follows \<open>a\<close> with no gap: the first descendant of \<open>b\<close> is the Morton successor of
  the last descendant of \<open>a\<close> at the deepest quadrant level.\<close>

definition p4est_quadrant_is_next :: "quadrant \<Rightarrow> quadrant \<Rightarrow> bool" where
  "p4est_quadrant_is_next q r \<longleftrightarrow>
     p4est_quadrant_linear_id
        (p4est_quadrant_last_descendant q (int P4EST_QMAXLEVEL)) (int P4EST_QMAXLEVEL) + 1
     = p4est_quadrant_linear_id
        (p4est_quadrant_first_descendant r (int P4EST_QMAXLEVEL)) (int P4EST_QMAXLEVEL)"

section \<open>Tree predicates (lines 149-282)\<close>

text \<open>The loops of \<^verbatim>\<open>p4est_tree_is_sorted\<close>, \<^verbatim>\<open>p4est_tree_is_linear\<close> and
  \<^verbatim>\<open>p4est_tree_is_complete\<close> walk the array with \<open>q1\<close> one element behind \<open>q2\<close>
  and return 0 at the first pair that fails.\<close>

fun is_sorted_from :: "quadrant \<Rightarrow> quadrant list \<Rightarrow> bool" where
  "is_sorted_from q1 [] = True"
| "is_sorted_from q1 (q2 # qs) =
     (if p4est_quadrant_compare q1 q2 \<ge> 0 then False else is_sorted_from q2 qs)"

definition p4est_tree_is_sorted :: "tree \<Rightarrow> bool" where
  "p4est_tree_is_sorted t =
     (case quadrants t of [] \<Rightarrow> True | q1 # qs \<Rightarrow> is_sorted_from q1 qs)"

fun is_linear_from :: "quadrant \<Rightarrow> quadrant list \<Rightarrow> bool" where
  "is_linear_from q1 [] = True"
| "is_linear_from q1 (q2 # qs) =
     (if p4est_quadrant_compare q1 q2 \<ge> 0 then False
      else if p4est_quadrant_is_ancestor q1 q2 then False
      else is_linear_from q2 qs)"

definition p4est_tree_is_linear :: "tree \<Rightarrow> bool" where
  "p4est_tree_is_linear t =
     (case quadrants t of [] \<Rightarrow> True | q1 # qs \<Rightarrow> is_linear_from q1 qs)"

fun is_complete_from :: "quadrant \<Rightarrow> quadrant list \<Rightarrow> bool" where
  "is_complete_from q1 [] = True"
| "is_complete_from q1 (q2 # qs) =
     (if \<not> p4est_quadrant_is_next q1 q2 then False else is_complete_from q2 qs)"

definition p4est_tree_is_complete :: "tree \<Rightarrow> bool" where
  "p4est_tree_is_complete t =
     (case quadrants t of [] \<Rightarrow> True | q1 # qs \<Rightarrow> is_complete_from q1 qs)"

text \<open>\<^verbatim>\<open>sc_array_is_sorted (tquadrants, p4est_quadrant_compare)\<close>: no element compares
  greater than its successor.\<close>

fun sc_array_is_sorted :: "('a \<Rightarrow> 'a \<Rightarrow> int) \<Rightarrow> 'a list \<Rightarrow> bool" where
  "sc_array_is_sorted cmp [] = True"
| "sc_array_is_sorted cmp [a] = True"
| "sc_array_is_sorted cmp (a # b # xs) = (cmp a b \<le> 0 \<and> sc_array_is_sorted cmp (b # xs))"

section \<open>p4est\_linearize\_tree (lines 2398-2478)\<close>

text \<open>
  The loop that removes ancestors.  \<open>arr\<close> is the array \<^verbatim>\<open>tquadrants\<close>, \<open>qpl\<close> the
  histogram \<^verbatim>\<open>quadrants_per_level\<close>; the pointer \<open>q1\<close> always addresses
  \<open>arr ! current\<close>.  The indices stay below \<open>incount = length arr\<close>.
\<close>

function linearize_loop ::
  "p4est \<Rightarrow> quadrant list \<Rightarrow> (nat \<Rightarrow> p4est_locidx_t) \<Rightarrow> nat \<Rightarrow> nat \<Rightarrow> nat \<Rightarrow> nat
     \<Rightarrow> p4est \<times> quadrant list \<times> (nat \<Rightarrow> p4est_locidx_t) \<times> nat \<times> nat" where
  "linearize_loop p4 arr qpl current rest removed incount =
     (if rest < incount then
        (let q1 = arr ! current; q2 = arr ! rest in
         if p4est_quadrant_is_equal q1 q2 \<or> p4est_quadrant_is_ancestor q1 q2 then
           (let qpl' = qpl(nat (q_level q1) := qpl (nat (q_level q1)) - 1);
                p4' = fst (p4est_quadrant_free_data p4 q1);
                arr' = arr[current := q2]
            in linearize_loop p4' arr' qpl' current (rest + 1) (removed + 1) incount)
         else
           (let current' = current + 1;
                arr' = (if current' < rest then arr[current' := q2] else arr)
            in linearize_loop p4 arr' qpl current' (rest + 1) removed incount))
      else (p4, arr, qpl, current, removed))"
  by pat_completeness auto
termination
  by (relation "measure (\<lambda>(p4, arr, qpl, current, rest, removed, incount). incount - rest)") auto

declare linearize_loop.simps [simp del]

text \<open>The loop over the levels that recomputes \<^verbatim>\<open>maxlevel\<close> from the histogram.\<close>

definition maxlevel_of_counts :: "(nat \<Rightarrow> p4est_locidx_t) \<Rightarrow> int" where
  "maxlevel_of_counts qpl =
     foldl (\<lambda>m i. if qpl i > 0 then int i else m) 0 [0..<Suc P4EST_QMAXLEVEL]"

definition p4est_linearize_tree :: "p4est \<Rightarrow> tree \<Rightarrow> p4est \<times> tree \<times> nat" where
  "p4est_linearize_tree p4 t =
     (let incount = length (quadrants t) in
      if incount \<le> 1 then (p4, t, 0)
      else
        (let (p4', arr, qpl, current, removed) =
               linearize_loop p4 (quadrants t) (quadrants_per_level t) 0 1 0 incount
         in (p4',
             t\<lparr>quadrants := take (current + 1) arr,
               quadrants_per_level := qpl,
               maxlevel := maxlevel_of_counts qpl\<rparr>,
             removed)))"

section \<open>p4est\_tree\_uniqify\_overlap (lines 1146-1196)\<close>

text \<open>Modelled from the spec (section 4.6, step 6): the output of the overlap engine is
  ordered by \<open>(which_tree, coords, level)\<close>.  \<^verbatim>\<open>p4est_quadrant_compare_piggy\<close> compares
  the tree tags first and falls back to \<^verbatim>\<open>p4est_quadrant_compare\<close>;
  \<^verbatim>\<open>p4est_quadrant_is_equal_piggy\<close> compares tag, level and coordinates.\<close>

definition p4est_quadrant_compare_piggy :: "quadrant \<Rightarrow> quadrant \<Rightarrow> int" where
  "p4est_quadrant_compare_piggy q1 q2 =
     (let diff = which_tree (q_p q1) - which_tree (q_p q2)
      in if diff = 0 then p4est_quadrant_compare q1 q2 else if diff < 0 then -1 else 1)"

definition p4est_quadrant_is_equal_piggy :: "quadrant \<Rightarrow> quadrant \<Rightarrow> bool" where
  "p4est_quadrant_is_equal_piggy q1 q2 \<longleftrightarrow>
     which_tree (q_p q1) = which_tree (q_p q2) \<and> q_level q1 = q_level q2 \<and>
     q_x q1 = q_x q2 \<and> q_y q1 = q_y q2"

text \<open>\<^verbatim>\<open>sc_array_sort\<close> (libsc, a call of \<^verbatim>\<open>qsort\<close>) sorts the array in place by the
  comparison function.  It is modelled by insertion sort.\<close>

fun sc_insert :: "('a \<Rightarrow> 'a \<Rightarrow> int) \<Rightarrow> 'a \<Rightarrow> 'a list \<Rightarrow> 'a list" where
  "sc_insert cmp a [] = [a]"
| "sc_insert cmp a (b # bs) = (if cmp a b \<le> 0 then a # b # bs else b # sc_insert cmp a bs)"

definition sc_array_sort :: "('a \<Rightarrow> 'a \<Rightarrow> int) \<Rightarrow> 'a list \<Rightarrow> 'a list" where
  "sc_array_sort cmp xs = foldr (sc_insert cmp) xs []"

text \<open>\<^verbatim>\<open>sc_array_bsearch\<close> (libsc, a call of \<^verbatim>\<open>bsearch\<close>) returns the index of an
  element that compares equal to the key, or \<open>-1\<close>.  It is modelled by binary search
  on the index range \<open>[lo, hi)\<close>.\<close>

function bsearch_range :: "('a \<Rightarrow> 'a \<Rightarrow> int) \<Rightarrow> 'a \<Rightarrow> 'a list \<Rightarrow> nat \<Rightarrow> nat \<Rightarrow> int" where
  "bsearch_range cmp key arr lo hi =
     (if lo < hi then
        (let mid = (lo + hi) div 2; c = cmp key (arr ! mid) in
         if c < 0 then bsearch_range cmp key arr lo mid
         else if c > 0 then bsearch_range cmp key arr (mid + 1) hi
         else int mid)
      else -1)"
  by pat_completeness auto
termination
  by (relation "measure (\<lambda>(cmp, key, arr, lo, hi). hi - lo)") auto

declare bsearch_range.simps [simp del]

definition sc_array_bsearch :: "'a list \<Rightarrow> 'a \<Rightarrow> ('a \<Rightarrow> 'a \<Rightarrow> int) \<Rightarrow> int" where
  "sc_array_bsearch arr key cmp = bsearch_range cmp key arr 0 (length arr)"

text \<open>The loop of \<^verbatim>\<open>p4est_tree_uniqify_overlap\<close>: \<open>iz\<close> is the read counter, \<open>jz\<close> the
  write counter, the pointer \<open>inq\<close> addresses \<open>arr ! iz\<close> and \<open>tq\<close> addresses
  \<open>arr ! (iz + 1)\<close>.  The branch on \<^verbatim>\<open>p4est_quadrant_is_ancestor\<close> is compiled out
  (\<^verbatim>\<open>#if 0\<close>).  The function returns the array and the final write counter.\<close>

function uniqify_loop ::
  "quadrant list \<Rightarrow> quadrant list \<Rightarrow> nat \<Rightarrow> nat \<Rightarrow> nat \<Rightarrow> quadrant list \<times> nat" where
  "uniqify_loop skip arr iz jz outcount =
     (if iz < outcount then
        (let inq = arr ! iz in
         if iz < outcount - 1 \<and> p4est_quadrant_is_equal_piggy inq (arr ! (iz + 1)) then
           uniqify_loop skip arr (iz + 1) jz outcount
         else if sc_array_bsearch skip inq p4est_quadrant_compare_piggy \<noteq> -1 then
           uniqify_loop skip arr (iz + 1) jz outcount
         else
           uniqify_loop skip (if iz > jz then arr[jz := inq] else arr) (iz + 1) (jz + 1) outcount)
      else (arr, jz))"
  by pat_completeness auto
termination
  by (relation "measure (\<lambda>(skip, arr, iz, jz, outcount). outcount - iz)") auto

declare uniqify_loop.simps [simp del]

definition p4est_tree_uniqify_overlap :: "quadrant list \<Rightarrow> quadrant list \<Rightarrow> quadrant list" where
  "p4est_tree_uniqify_overlap skip out =
     (let outcount = length out in
      if outcount = 0 then out
      else
        (let sorted_out = sc_array_sort p4est_quadrant_compare_piggy out;
             (arr, jz) = uniqify_loop skip sorted_out 0 0 outcount
         in take jz arr))"

section \<open>p4est\_is\_valid (lines 420-642)\<close>

text \<open>
  The outcome of the checks of one process: a check failed and logged its diagnostic
  label (\<^verbatim>\<open>failed = 1; goto failtest\<close>), or all passed.  \<open>Abort\<close> stands for an array
  index outside its array, which the C code does not survive.  The labels are the
  strings passed to \<^verbatim>\<open>P4EST_NOTICE\<close>, without the trailing newline.
\<close>

datatype 'a check = Abort | Failed string | Passed 'a

definition array_index :: "'a list \<Rightarrow> int \<Rightarrow> 'a option" where
  "array_index xs i = (if 0 \<le> i \<and> i < int (length xs) then Some (xs ! nat i) else None)"

text \<open>The check of the first tree in the global partition (lines 457-490).\<close>

definition check_first_tree :: "p4est \<Rightarrow> unit check" where
  "check_first_tree p4 =
     (let first_tree = first_local_tree p4; last_tree = last_local_tree p4 in
      if first_tree < 0 then
        (if \<not> (first_tree = -1 \<and> last_tree = -2)
         then Failed ''p4est invalid empty tree range A'' else Passed ())
      else
        (case array_index (global_first_position p4) (mpirank p4) of
           None \<Rightarrow> Abort
         | Some pos \<Rightarrow>
             if which_tree (q_p pos) \<noteq> first_tree then Failed ''p4est invalid first tree''
             else
               (let mylow = \<lparr>q_x = q_x pos, q_y = q_y pos,
                              q_level = int P4EST_QMAXLEVEL, q_p = q_p P4EST_QUADRANT_INIT\<rparr> in
                case array_index (trees p4) first_tree of
                  None \<Rightarrow> Abort
                | Some tree \<Rightarrow>
                    (case quadrants tree of
                       [] \<Rightarrow> Passed ()
                     | q # qs \<Rightarrow>
                         if q_x q \<noteq> q_x mylow \<or> q_y q \<noteq> q_y mylow
                         then Failed ''p4est invalid low quadrant'' else Passed ()))))"

text \<open>The check of the last tree in the global partition (lines 492-549).\<close>

definition check_last_tree :: "p4est \<Rightarrow> unit check" where
  "check_last_tree p4 =
     (let first_tree = first_local_tree p4; last_tree = last_local_tree p4;
          mh = P4EST_QUADRANT_LEN (int P4EST_QMAXLEVEL) in
      if last_tree < 0 then
        (if \<not> (first_tree = -1 \<and> last_tree = -2)
         then Failed ''p4est invalid empty tree range B'' else Passed ())
      else
        (case array_index (global_first_position p4) (mpirank p4 + 1) of
           None \<Rightarrow> Abort
         | Some pos \<Rightarrow>
             (let next_tree = which_tree (q_p pos) in
              if next_tree \<noteq> last_tree \<and> next_tree \<noteq> last_tree + 1
              then Failed ''p4est invalid last tree''
              else
                (let nextlow = \<lparr>q_x = q_x pos, q_y = q_y pos,
                                 q_level = int P4EST_QMAXLEVEL, q_p = q_p P4EST_QUADRANT_INIT\<rparr> in
                 if next_tree = last_tree + 1 \<and> (q_x nextlow \<noteq> 0 \<or> q_y nextlow \<noteq> 0)
                 then Failed ''p4est invalid next coordinates''
                 else
                   (case array_index (trees p4) last_tree of
                      None \<Rightarrow> Abort
                    | Some tree \<Rightarrow>
                        if quadrants tree = [] then Passed ()
                        else
                          (let q = last (quadrants tree) in
                           if next_tree = last_tree then
                             (if \<not> p4est_quadrant_is_next q nextlow
                              then Failed ''p4est invalid next quadrant'' else Passed ())
                           else
                             (let s = p4est_quadrant_last_descendant q (int P4EST_QMAXLEVEL) in
                              if q_x s + mh \<noteq> P4EST_ROOT_LEN \<or> q_y s + mh \<noteq> P4EST_ROOT_LEN
                              then Failed ''p4est invalid last quadrant''
                              else Passed ())))))))"

text \<open>The two loops over the levels (lines 598-608): the sum of the histogram and the
  deepest level with a positive count.\<close>

definition nquadrants_of_counts :: "(nat \<Rightarrow> p4est_locidx_t) \<Rightarrow> p4est_locidx_t" where
  "nquadrants_of_counts qpl = foldl (\<lambda>n i. n + qpl i) 0 [0..<Suc P4EST_QMAXLEVEL]"

text \<open>The body of the loop over the trees (lines 553-624) for tree \<open>jt\<close> with the
  running count \<open>lquadrants\<close>; it returns the count after the tree.\<close>

definition check_tree :: "p4est \<Rightarrow> p4est_topidx_t \<Rightarrow> tree \<Rightarrow> p4est_locidx_t \<Rightarrow> p4est_locidx_t check" where
  "check_tree p4 jt tree lquadrants =
     (if quadrants_offset tree \<noteq> lquadrants then Failed ''p4est invalid quadrants offset''
      else if \<not> p4est_tree_is_complete tree then Failed ''p4est invalid not complete''
      else
        (let desc =
           (if quadrants tree \<noteq> [] then
              (if jt < first_local_tree p4 \<or> jt > last_local_tree p4
               then Failed ''p4est invalid outside count''
               else if \<not> p4est_quadrant_is_equal
                         (p4est_quadrant_first_descendant (hd (quadrants tree)) (int P4EST_QMAXLEVEL))
                         (first_desc tree)
               then Failed ''p4est invalid first tree descendant''
               else if \<not> p4est_quadrant_is_equal
                         (p4est_quadrant_last_descendant (last (quadrants tree)) (int P4EST_QMAXLEVEL))
                         (last_desc tree)
               then Failed ''p4est invalid last tree descendant''
               else Passed ())
            else
              (if q_level P4EST_QUADRANT_INIT \<noteq> q_level (first_desc tree)
                  \<or> q_level P4EST_QUADRANT_INIT \<noteq> q_level (last_desc tree)
               then Failed ''p4est invalid empty descendant'' else Passed ()))
         in case desc of
              Abort \<Rightarrow> Abort
            | Failed l \<Rightarrow> Failed l
            | Passed u \<Rightarrow>
                (let maxl = maxlevel_of_counts (quadrants_per_level tree);
                     nquadrants = nquadrants_of_counts (quadrants_per_level tree) in
                 if maxl \<noteq> maxlevel tree then Failed ''p4est invalid wrong maxlevel''
                 else if nquadrants \<noteq> int (length (quadrants tree))
                 then Failed ''p4est invalid tree quadrant count''
                 else Passed (lquadrants + nquadrants))))"

fun check_trees :: "p4est \<Rightarrow> p4est_topidx_t \<Rightarrow> tree list \<Rightarrow> p4est_locidx_t \<Rightarrow> p4est_locidx_t check" where
  "check_trees p4 jt [] lquadrants = Passed lquadrants"
| "check_trees p4 jt (tree # ts) lquadrants =
     (case check_tree p4 jt tree lquadrants of
        Abort \<Rightarrow> Abort
      | Failed l \<Rightarrow> Failed l
      | Passed lq \<Rightarrow> check_trees p4 (jt + 1) ts lq)"

text \<open>The checks after the loop (lines 626-638).\<close>

definition check_counts :: "p4est \<Rightarrow> p4est_locidx_t \<Rightarrow> unit check" where
  "check_counts p4 lquadrants =
     (if lquadrants \<noteq> local_num_quadrants p4 then Failed ''p4est invalid local quadrant count''
      else
        (case (array_index (global_first_quadrant p4) 0,
               array_index (global_first_quadrant p4) (mpisize p4)) of
           (Some g0, Some gn) \<Rightarrow>
             if g0 \<noteq> 0 \<or> gn \<noteq> global_num_quadrants p4
             then Failed ''p4est invalid global quadrant index'' else Passed ()
         | _ \<Rightarrow> Abort))"

definition check_trees_and_counts :: "p4est \<Rightarrow> unit check" where
  "check_trees_and_counts p4 =
     (case check_trees p4 0 (trees p4) 0 of
        Abort \<Rightarrow> Abort
      | Failed l \<Rightarrow> Failed l
      | Passed lq \<Rightarrow> check_counts p4 lq)"

text \<open>All checks of one process, up to the label \<^verbatim>\<open>failtest\<close>.\<close>

definition is_valid_checks :: "p4est \<Rightarrow> unit check" where
  "is_valid_checks p4 =
     (case check_first_tree p4 of
        Abort \<Rightarrow> Abort
      | Failed l \<Rightarrow> Failed l
      | Passed u \<Rightarrow>
          (case check_last_tree p4 of
             Abort \<Rightarrow> Abort
           | Failed l \<Rightarrow> Failed l
           | Passed u \<Rightarrow> check_trees_and_counts p4))"

text \<open>The value of the variable \<^verbatim>\<open>failed\<close> at \<^verbatim>\<open>failtest\<close>.\<close>

definition failed_flag :: "unit check \<Rightarrow> int" where
  "failed_flag c = (case c of Failed l \<Rightarrow> 1 | _ \<Rightarrow> 0)"

text \<open>Modelled from the spec (section 6, collective contracts): \<open>sync_flag(flag, op)\<close>
  reduces a per-process int with a boolean op.  \<^verbatim>\<open>p4est_comm_sync_flag\<close> with
  \<^verbatim>\<open>MPI_BOR\<close> gives every process the disjunction of the flags of all processes.\<close>

definition p4est_comm_sync_flag_BOR :: "int list \<Rightarrow> int" where
  "p4est_comm_sync_flag_BOR flags = (if list_ex (\<lambda>f. f \<noteq> 0) flags then 1 else 0)"

text \<open>\<^verbatim>\<open>p4est_is_valid\<close> is collective.  \<open>ps\<close> holds the forest of every process, in rank
  order; the result is the value the call returns on process \<open>rank\<close>, or \<open>None\<close> when
  a process leaves its arrays.\<close>

definition p4est_is_valid :: "p4est list \<Rightarrow> nat \<Rightarrow> bool option" where
  "p4est_is_valid ps rank =
     (if list_ex (\<lambda>p. is_valid_checks p = Abort) ps then None
      else Some (p4est_comm_sync_flag_BOR (map (\<lambda>p. failed_flag (is_valid_checks p)) ps) = 0))"

text \<open>The diagnostic labels, in the order of the checks.\<close>

definition is_valid_labels :: "string list" where
  "is_valid_labels =
     [''p4est invalid empty tree range A'', ''p4est invalid first tree'',
      ''p4est invalid low quadrant'', ''p4est invalid empty tree range B'',
      ''p4est invalid last tree'', ''p4est invalid next coordinates'',
      ''p4est invalid next quadrant'', ''p4est invalid last quadrant'',
      ''p4est invalid quadrants offset'', ''p4est invalid not complete'',
      ''p4est invalid outside count'', ''p4est invalid first tree descendant'',
      ''p4est invalid last tree descendant'', ''p4est invalid empty descendant'',
      ''p4est invalid wrong maxlevel'', ''p4est invalid tree quadrant count'',
      ''p4est invalid local quadrant count'', ''p4est invalid global quadrant index'']"

section \<open>p4est\_partition\_given (lines 2546-3299)\<close>

text \<open>
  The function is collective: every process runs it on its own forest with the same
  array \<^verbatim>\<open>new_num_quadrants_in_proc\<close>, here \<open>nc\<close>.  Arrays indexed by process or by
  tree are lists; a C \<^verbatim>\<open>for\<close> loop over an index range is a \<open>foldl\<close> over that range.
  The model follows the function block by block.
\<close>

text \<open>Lines 2622-2630: \<^verbatim>\<open>global_last_quad_index\<close>.\<close>

definition global_last_quad_index :: "p4est \<Rightarrow> p4est_gloidx_t list" where
  "global_last_quad_index p4 =
     map (\<lambda>i. global_first_quadrant p4 ! (i + 1) - 1) [0..<nat (mpisize p4)]"

text \<open>Lines 2641-2647: \<^verbatim>\<open>new_global_last_quad_index\<close>, the running sums of the new counts
  minus one; \<open>acc\<close> is the entry before.\<close>

fun running_last :: "p4est_gloidx_t \<Rightarrow> p4est_locidx_t list \<Rightarrow> p4est_gloidx_t list" where
  "running_last acc [] = []"
| "running_last acc (c # cs) = (c + acc) # running_last (c + acc) cs"

definition new_global_last_quad_index :: "p4est \<Rightarrow> p4est_locidx_t list \<Rightarrow> p4est_gloidx_t list" where
  "new_global_last_quad_index p4 nc = running_last (-1) (take (nat (mpisize p4)) nc)"

text \<open>Lines 2651-2664: the global number of shipped quadrants, the value returned.\<close>

definition total_quadrants_shipped :: "p4est \<Rightarrow> p4est_locidx_t list \<Rightarrow> p4est_gloidx_t" where
  "total_quadrants_shipped p4 nc =
     (let G = global_last_quad_index p4; N = new_global_last_quad_index p4 nc in
      foldl (\<lambda>total i.
               (let diff64 = G ! (i - 1) - N ! (i - 1) in
                if diff64 \<ge> 0 then total + min diff64 (nc ! i)
                else total + min (- diff64) (nc ! (i - 1))))
        0 [1..<nat (mpisize p4)])"

text \<open>Lines 2677-2694: \<^verbatim>\<open>local_tree_last_quad_index\<close>, zero outside the local trees.\<close>

definition tree_count :: "p4est \<Rightarrow> p4est_topidx_t \<Rightarrow> int" where
  "tree_count p4 wt = int (length (quadrants (trees p4 ! nat wt)))"

definition local_tree_last_quad_index :: "p4est \<Rightarrow> p4est_gloidx_t list" where
  "local_tree_last_quad_index p4 =
     (let flt = first_local_tree p4;
          z = replicate (length (trees p4)) 0;
          a0 = (if flt \<ge> 0 then z[nat flt := tree_count p4 flt - 1] else z)
      in foldl (\<lambda>a wt. a[nat wt := tree_count p4 wt + a ! nat (wt - 1)]) a0
           [flt + 1 .. last_local_tree p4])"

text \<open>Lines 2707-2727: \<^verbatim>\<open>num_recv_from\<close>, from the overlap of my new range with the old
  range of every process.\<close>

definition num_recv_from :: "p4est \<Rightarrow> p4est_locidx_t list \<Rightarrow> p4est_locidx_t list" where
  "num_recv_from p4 nc =
     (let G = global_last_quad_index p4; N = new_global_last_quad_index p4 nc;
          rank = nat (mpirank p4);
          my_begin = (if rank = 0 then 0 else N ! (rank - 1) + 1);
          my_end = N ! rank
      in map (\<lambda>from_proc.
                (let from_begin = (if from_proc = 0 then 0 else G ! (from_proc - 1) + 1);
                     from_end = G ! from_proc
                 in if from_begin \<le> my_end \<and> from_end \<ge> my_begin
                    then min my_end from_end - max my_begin from_begin + 1 else 0))
           [0..<nat (mpisize p4)])"

text \<open>Lines 2775-2802: \<^verbatim>\<open>num_send_to\<close> and \<^verbatim>\<open>begin_send_to\<close>, from the overlap of my old
  range with the new range of every process.\<close>

definition send_range :: "p4est \<Rightarrow> p4est_locidx_t list \<Rightarrow> nat \<Rightarrow> p4est_locidx_t \<times> p4est_gloidx_t" where
  "send_range p4 nc to_proc =
     (let G = global_last_quad_index p4; N = new_global_last_quad_index p4 nc;
          rank = nat (mpirank p4);
          my_begin = (if rank = 0 then 0 else G ! (rank - 1) + 1);
          my_end = G ! rank;
          to_begin = (if to_proc = 0 then 0 else N ! (to_proc - 1) + 1);
          to_end = N ! to_proc
      in if to_begin \<le> my_end \<and> to_end \<ge> my_begin
         then (min my_end to_end - max my_begin to_begin + 1, max my_begin to_begin)
         else (0, -1))"

definition num_send_to :: "p4est \<Rightarrow> p4est_locidx_t list \<Rightarrow> nat \<Rightarrow> p4est_locidx_t" where
  "num_send_to p4 nc to_proc = fst (send_range p4 nc to_proc)"

definition begin_send_to :: "p4est \<Rightarrow> p4est_locidx_t list \<Rightarrow> nat \<Rightarrow> p4est_gloidx_t" where
  "begin_send_to p4 nc to_proc = snd (send_range p4 nc to_proc)"

text \<open>\<^verbatim>\<open>num_send_trees\<close> (lines 2560-2562) and the local index window
  \<open>(my_begin, my_end)\<close> of the quadrants that go to \<open>to_proc\<close> (lines 2829-2831,
  2873-2875, 3014-3016).\<close>

definition num_send_trees :: "p4est \<Rightarrow> p4est_topidx_t" where
  "num_send_trees p4 =
     which_tree (q_p (global_first_position p4 ! (nat (mpirank p4) + 1)))
     - which_tree (q_p (global_first_position p4 ! nat (mpirank p4))) + 1"

definition send_window :: "p4est \<Rightarrow> p4est_locidx_t list \<Rightarrow> nat \<Rightarrow> p4est_gloidx_t \<times> p4est_gloidx_t" where
  "send_window p4 nc to_proc =
     (let rank = nat (mpirank p4);
          my_base = (if rank = 0 then 0 else global_last_quad_index p4 ! (rank - 1) + 1)
      in (begin_send_to p4 nc to_proc - my_base,
          begin_send_to p4 nc to_proc + num_send_to p4 nc to_proc - 1 - my_base))"

text \<open>The part of tree \<open>which_tree\<close> inside a window: \<open>None\<close> when the tree does not meet
  the window, else \<open>(tree_from_begin, tree_from_end)\<close> (lines 2836-2844, 2881-2889,
  3027-3036).\<close>

definition tree_part ::
  "p4est \<Rightarrow> p4est_topidx_t \<Rightarrow> p4est_gloidx_t \<Rightarrow> p4est_gloidx_t
     \<Rightarrow> (p4est_gloidx_t \<times> p4est_gloidx_t) option" where
  "tree_part p4 wt my_begin my_end =
     (let lt = local_tree_last_quad_index p4;
          from_begin = (if wt = first_local_tree p4 then 0 else lt ! nat (wt - 1) + 1);
          from_end = lt ! nat wt
      in if from_begin \<le> my_end \<and> from_end \<ge> my_begin
         then Some (max my_begin from_begin - from_begin, min my_end from_end - from_begin)
         else None)"

text \<open>Lines 2826-2850: \<^verbatim>\<open>num_per_tree_local\<close>, the counts per tree of the quadrants
  that stay on this process.\<close>

definition num_per_tree_local :: "p4est \<Rightarrow> p4est_locidx_t list \<Rightarrow> p4est_locidx_t list" where
  "num_per_tree_local p4 nc =
     (let (my_begin, my_end) = send_window p4 nc (nat (mpirank p4)) in
      foldl (\<lambda>npt wt.
               (case tree_part p4 wt my_begin my_end of
                  None \<Rightarrow> npt
                | Some (tfb, tfe) \<Rightarrow> npt[nat (wt - first_local_tree p4) := tfe - tfb + 1]))
        (replicate (nat (num_send_trees p4)) 0)
        [first_local_tree p4 .. last_local_tree p4])"

text \<open>
  Lines 2852-2931: the message for \<open>to_proc\<close>: the counts per tree, the quadrant
  records with their payload pointers set to NULL, and the payloads.  In this loop
  \<open>my_begin\<close> advances by the number of quadrants copied.
\<close>

record message =
  msg_num_per_tree :: "p4est_locidx_t list"
  msg_quads :: "quadrant list"
  msg_user_data :: "nat list list"

definition payload_bytes :: "quadrant \<Rightarrow> nat list" where
  "payload_bytes q = (case q_p q of user_data (Some b) \<Rightarrow> b | _ \<Rightarrow> [])"

definition pack_message :: "p4est \<Rightarrow> p4est_locidx_t list \<Rightarrow> nat \<Rightarrow> message" where
  "pack_message p4 nc to_proc =
     (let (my_begin0, my_end) = send_window p4 nc to_proc in
      snd (foldl (\<lambda>(my_begin, m) wt.
               (case tree_part p4 wt my_begin my_end of
                  None \<Rightarrow> (my_begin, m)
                | Some (tfb, tfe) \<Rightarrow>
                    (let num_copy = tfe - tfb + 1;
                         qs = take (nat num_copy) (drop (nat tfb) (quadrants (trees p4 ! nat wt)))
                     in (my_begin + num_copy,
                         m\<lparr>msg_num_per_tree :=
                              (msg_num_per_tree m)[nat (wt - first_local_tree p4) := num_copy],
                           msg_quads := msg_quads m @ map (\<lambda>q. q\<lparr>q_p := user_data None\<rparr>) qs,
                           msg_user_data := msg_user_data m @ map payload_bytes qs\<rparr>))))
        (my_begin0,
         \<lparr>msg_num_per_tree = replicate (nat (num_send_trees p4)) 0,
          msg_quads = [], msg_user_data = []\<rparr>)
        [first_local_tree p4 .. last_local_tree p4]))"

text \<open>The messages a process sends: one to every other process that gets quadrants
  (line 2854).\<close>

definition send_buf :: "p4est \<Rightarrow> p4est_locidx_t list \<Rightarrow> nat \<Rightarrow> message option" where
  "send_buf p4 nc to_proc =
     (if to_proc \<noteq> nat (mpirank p4) \<and> num_send_to p4 nc to_proc \<noteq> 0
      then Some (pack_message p4 nc to_proc) else None)"

text \<open>
  Lines 2942-2996: from the counts per tree of every process that sends to me (my own
  \<^verbatim>\<open>num_per_tree_local\<close> for \<open>from_proc = rank\<close>), the new number of quadrants of every
  tree, the number that comes from lower ranks, and the new local tree range.
  \<open>recv\<close> gives the message received from a process.
\<close>

definition P4EST_TOPIDX_MAX :: p4est_topidx_t where
  "P4EST_TOPIDX_MAX = 2147483647"

definition from_trees :: "p4est \<Rightarrow> nat \<Rightarrow> p4est_topidx_t \<times> p4est_topidx_t" where
  "from_trees p4 from_proc =
     (let first_from_tree = which_tree (q_p (global_first_position p4 ! from_proc));
          last_from_tree = which_tree (q_p (global_first_position p4 ! (from_proc + 1)))
      in (first_from_tree, last_from_tree - first_from_tree + 1))"

definition num_per_tree_recv_buf ::
  "p4est \<Rightarrow> p4est_locidx_t list \<Rightarrow> (nat \<Rightarrow> message) \<Rightarrow> nat \<Rightarrow> p4est_locidx_t list" where
  "num_per_tree_recv_buf p4 nc recv from_proc =
     (if from_proc = nat (mpirank p4) then num_per_tree_local p4 nc
      else msg_num_per_tree (recv from_proc))"

record recv_counts =
  new_first_local_tree :: p4est_topidx_t
  new_last_local_tree :: p4est_topidx_t
  new_local_tree_elem_count :: "p4est_locidx_t list"
  new_local_tree_elem_count_before :: "p4est_locidx_t list"

definition count_received :: "p4est \<Rightarrow> p4est_locidx_t list \<Rightarrow> (nat \<Rightarrow> message) \<Rightarrow> recv_counts" where
  "count_received p4 nc recv =
     (let rank = nat (mpirank p4);
          c = foldl (\<lambda>c from_proc.
                 if num_recv_from p4 nc ! from_proc > 0 then
                   (let (first_from_tree, num_recv_trees) = from_trees p4 from_proc;
                        npt = num_per_tree_recv_buf p4 nc recv from_proc
                    in foldl (\<lambda>c it.
                         if npt ! it > 0 then
                           (let from_tree = first_from_tree + int it in
                            c\<lparr>new_first_local_tree := min (new_first_local_tree c) from_tree,
                              new_last_local_tree := max (new_last_local_tree c) from_tree,
                              new_local_tree_elem_count :=
                                (new_local_tree_elem_count c)[nat from_tree :=
                                   new_local_tree_elem_count c ! nat from_tree + npt ! it],
                              new_local_tree_elem_count_before :=
                                (new_local_tree_elem_count_before c)[nat from_tree :=
                                   new_local_tree_elem_count_before c ! nat from_tree
                                   + (if from_proc < rank then npt ! it else 0)]\<rparr>)
                         else c)
                       c [0..<nat num_recv_trees])
                 else c)
               \<lparr>new_first_local_tree = P4EST_TOPIDX_MAX, new_last_local_tree = 0,
                new_local_tree_elem_count = replicate (length (trees p4)) 0,
                new_local_tree_elem_count_before = replicate (length (trees p4)) 0\<rparr>
               [0..<nat (mpisize p4)]
      in if new_first_local_tree c > new_last_local_tree c
         then c\<lparr>new_first_local_tree := -1, new_last_local_tree := -2\<rparr> else c)"

text \<open>Array operations: \<^verbatim>\<open>sc_array_resize\<close> (new elements are not initialised; the model
  fills them with \<open>P4EST_QUADRANT_INIT\<close>) and \<^verbatim>\<open>memcpy\<close>/\<^verbatim>\<open>memmove\<close> of a block of
  elements to an offset of an array.\<close>

definition sc_array_resize :: "quadrant list \<Rightarrow> nat \<Rightarrow> quadrant list" where
  "sc_array_resize arr n = take n arr @ replicate (n - length arr) P4EST_QUADRANT_INIT"

definition array_write :: "'a list \<Rightarrow> nat \<Rightarrow> 'a list \<Rightarrow> 'a list" where
  "array_write dst off src = take off dst @ src @ drop (off + length src) dst"

text \<open>\<^verbatim>\<open>p4est_quadrant_free_data\<close> on the elements of an index range \<open>[lo, hi)\<close> of an
  array.\<close>

definition free_range :: "p4est \<Rightarrow> quadrant list \<Rightarrow> nat \<Rightarrow> nat \<Rightarrow> p4est \<times> quadrant list" where
  "free_range p4 arr lo hi =
     foldl (\<lambda>(p, a) zz.
              (let (p', q') = p4est_quadrant_free_data p (a ! zz) in (p', a[zz := q']))) (p4, arr)
       [lo..<hi]"

text \<open>
  Lines 3001-3104: the quadrants that stay are moved inside their tree to the place
  after the quadrants that will come from lower ranks; trees that lose all quadrants
  are reset.  \<open>p4\<close> is the forest before the call, \<open>(pool, ts)\<close> the forest being
  rebuilt: its pool and its trees.
\<close>

definition reset_tree :: "tree \<Rightarrow> tree" where
  "reset_tree t =
     t\<lparr>first_desc := P4EST_QUADRANT_INIT, last_desc := P4EST_QUADRANT_INIT,
       quadrants := [], quadrants_offset := 0,
       quadrants_per_level := (\<lambda>i. if i \<le> P4EST_QMAXLEVEL then 0 else quadrants_per_level t i),
       maxlevel := 0\<rparr>"

definition copy_local_tree ::
  "p4est \<Rightarrow> p4est_locidx_t list \<Rightarrow> recv_counts \<Rightarrow> p4est \<Rightarrow> p4est_topidx_t \<Rightarrow> p4est" where
  "copy_local_tree p4 nc c cur wt =
     (let (my_begin, my_end) = send_window p4 nc (nat (mpirank p4));
          tree = trees cur ! nat wt;
          arr = quadrants tree;
          is_old = (wt \<ge> first_local_tree p4 \<and> wt \<le> last_local_tree p4)
      in if new_local_tree_elem_count c ! nat wt > 0 then
           (if is_old then
              (let num_quadrants = new_local_tree_elem_count c ! nat wt;
                   (tfb, tfe, num_copy) =
                      (case tree_part p4 wt my_begin my_end of
                         Some (b, e) \<Rightarrow> (b, e, e - b + 1)
                       | None \<Rightarrow> (0, -1, 0));
                   (cur1, arr1) = free_range cur arr 0 (min (nat tfb) (length arr));
                   (cur2, arr2) = free_range cur1 arr1 (nat (tfe + 1)) (length arr1);
                   arr3 = (if num_quadrants > int (length arr2)
                           then sc_array_resize arr2 (nat num_quadrants) else arr2);
                   arr4 = array_write arr3 (nat (new_local_tree_elem_count_before c ! nat wt))
                            (take (nat num_copy) (drop (nat tfb) arr3));
                   arr5 = (if num_quadrants < int (length arr4)
                           then sc_array_resize arr4 (nat num_quadrants) else arr4)
               in cur2\<lparr>trees := (trees cur2)[nat wt := tree\<lparr>quadrants := arr5\<rparr>]\<rparr>)
            else cur)
         else
           (if is_old then
              (let (cur1, arr1) = free_range cur arr 0 (length arr)
               in cur1\<lparr>trees := (trees cur1)[nat wt := reset_tree tree]\<rparr>)
            else cur))"

definition copy_local :: "p4est \<Rightarrow> p4est_locidx_t list \<Rightarrow> recv_counts \<Rightarrow> p4est" where
  "copy_local p4 nc c =
     (let first_tree =
            (if first_local_tree p4 \<ge> 0 \<and> new_first_local_tree c \<ge> 0
             then min (first_local_tree p4) (new_first_local_tree c)
             else max (first_local_tree p4) (new_first_local_tree c));
          last_tree = max (last_local_tree p4) (new_last_local_tree c)
      in foldl (copy_local_tree p4 nc c) p4 [first_tree .. last_tree])"

text \<open>
  Lines 3106-3192: the received quadrants are copied behind the quadrants of their
  tree that are already in place; each gets a fresh payload block with the bytes
  received.  \<open>nbefore\<close> is \<^verbatim>\<open>new_local_tree_elem_count_before\<close> (cleared and counted
  again), \<open>off\<close> the number of quadrants of the message consumed.
\<close>

definition attach_payload :: "p4est \<Rightarrow> quadrant \<Rightarrow> nat list \<Rightarrow> quadrant" where
  "attach_payload p4 q bytes =
     (if data_size p4 > 0 then q\<lparr>q_p := user_data (Some bytes)\<rparr> else q\<lparr>q_p := user_data None\<rparr>)"

definition copy_received_tree ::
  "p4est \<Rightarrow> recv_counts \<Rightarrow> nat \<Rightarrow> p4est_topidx_t \<Rightarrow> p4est_locidx_t list \<Rightarrow> message
     \<Rightarrow> p4est \<times> p4est_locidx_t list \<times> nat \<Rightarrow> nat \<Rightarrow> p4est \<times> p4est_locidx_t list \<times> nat" where
  "copy_received_tree p4 c from_proc first_from_tree npt m st it =
     (let (cur, nbefore, off) = st;
          from_tree = first_from_tree + int it;
          num_copy = npt ! it;
          cur' =
            (if num_copy > 0 \<and> nat (mpirank p4) \<noteq> from_proc then
               (let tree = trees cur ! nat from_tree;
                    num_quadrants = new_local_tree_elem_count c ! nat from_tree;
                    arr = sc_array_resize (quadrants tree) (nat num_quadrants);
                    qs = take (nat num_copy) (drop off (msg_quads m));
                    ds = take (nat num_copy) (drop off (msg_user_data m));
                    arr' = array_write arr (nat (nbefore ! nat from_tree))
                             (map (\<lambda>(q, d). attach_payload p4 q d) (zip qs ds))
                in cur\<lparr>trees := (trees cur)[nat from_tree := tree\<lparr>quadrants := arr'\<rparr>],
                       user_data_pool := (if data_size p4 > 0
                                          then user_data_pool cur + nat num_copy
                                          else user_data_pool cur)\<rparr>)
             else cur);
          nbefore' = (if num_copy > 0
                     then nbefore[nat from_tree := nbefore ! nat from_tree + num_copy] else nbefore)
      in (cur', nbefore', off + nat num_copy))"

definition copy_received ::
  "p4est \<Rightarrow> p4est_locidx_t list \<Rightarrow> (nat \<Rightarrow> message) \<Rightarrow> recv_counts \<Rightarrow> p4est \<Rightarrow> p4est" where
  "copy_received p4 nc recv c cur0 =
     fst (foldl (\<lambda>(cur, nbefore) from_proc.
            if num_recv_from p4 nc ! from_proc > 0 then
              (let (first_from_tree, num_recv_trees) = from_trees p4 from_proc;
                   npt = num_per_tree_recv_buf p4 nc recv from_proc;
                   (cur', nbefore', off) =
                      foldl (copy_received_tree p4 c from_proc first_from_tree npt (recv from_proc))
                        (cur, nbefore, 0) [0..<nat num_recv_trees]
               in (cur', nbefore'))
            else (cur, nbefore))
          (cur0, replicate (length (trees p4)) 0)
          [0..<nat (mpisize p4)])"

text \<open>
  Lines 3194-3249: the global index of the first quadrant of every process, the new
  local tree range, and for every tree its offset, histogram, deepest level and first
  and last descendant.
\<close>

definition recount_tree :: "tree \<Rightarrow> p4est_locidx_t \<Rightarrow> tree" where
  "recount_tree t offset =
     (let qs = quadrants t;
          qpl0 = (\<lambda>i. if i \<le> P4EST_QMAXLEVEL then 0 else quadrants_per_level t i);
          (qpl, maxl) = foldl (\<lambda>(h, m) quad.
                           (h(nat (q_level quad) := h (nat (q_level quad)) + 1),
                            max (q_level quad) m)) (qpl0, 0) qs
      in t\<lparr>quadrants_offset := offset, quadrants_per_level := qpl, maxlevel := maxl,
           first_desc := p4est_quadrant_first_descendant (hd qs) (int P4EST_QMAXLEVEL),
           last_desc := p4est_quadrant_last_descendant (last qs) (int P4EST_QMAXLEVEL)\<rparr>)"

definition clear_tree :: "tree \<Rightarrow> p4est_locidx_t \<Rightarrow> tree" where
  "clear_tree t offset =
     t\<lparr>quadrants_offset := offset, first_desc := P4EST_QUADRANT_INIT,
       last_desc := P4EST_QUADRANT_INIT\<rparr>"

definition rebuild_trees :: "tree list \<Rightarrow> p4est_topidx_t \<Rightarrow> p4est_topidx_t \<Rightarrow> tree list \<times> p4est_locidx_t" where
  "rebuild_trees ts nflt nllt =
     (let ts1 = foldl (\<lambda>a wt. a[nat wt := clear_tree (a ! nat wt) 0]) ts [0 .. nflt - 1];
          (ts2, n) = foldl (\<lambda>(a, n) wt.
                        (a[nat wt := recount_tree (a ! nat wt) n],
                         n + int (length (quadrants (a ! nat wt)))))
                      (ts1, 0) [max 0 nflt .. nllt];
          ts3 = foldl (\<lambda>a wt. a[nat wt := clear_tree (a ! nat wt) n]) ts2
                  [max (max 0 nflt) (nllt + 1) .. int (length ts) - 1]
      in (ts3, n))"

text \<open>The work of one process up to the call of \<^verbatim>\<open>p4est_comm_global_partition\<close>.\<close>

definition partition_given_local :: "p4est \<Rightarrow> p4est_locidx_t list \<Rightarrow> (nat \<Rightarrow> message) \<Rightarrow> p4est" where
  "partition_given_local p4 nc recv =
     (let c = count_received p4 nc recv;
          cur = copy_received p4 nc recv c (copy_local p4 nc c);
          N = new_global_last_quad_index p4 nc;
          gfq = foldl (\<lambda>g i. g[i + 1 := N ! i + 1]) (global_first_quadrant p4)
                  [0..<nat (mpisize p4)];
          (ts, n) = rebuild_trees (trees cur) (new_first_local_tree c) (new_last_local_tree c)
      in cur\<lparr>global_first_quadrant := gfq,
             first_local_tree := new_first_local_tree c,
             last_local_tree := new_last_local_tree c,
             trees := ts,
             local_num_quadrants := n\<rparr>)"

text \<open>Modelled from the spec (section 6, collective contracts): \<open>global_partition\<close>
  gathers each process's first local leaf \<open>(tree, x, y)\<close> into
  \<open>global_first_position[0..P]\<close>; the entry of a process without quadrants is the entry
  of the next process, and entry \<open>P\<close> is the sentinel \<open>(num_trees, 0, 0, QMAXLEVEL)\<close>.\<close>

definition first_position :: "p4est \<Rightarrow> quadrant" where
  "first_position p4 =
     (if first_local_tree p4 \<ge> 0 then
        (let q = hd (quadrants (trees p4 ! nat (first_local_tree p4)))
         in \<lparr>q_x = q_x q, q_y = q_y q, q_level = int P4EST_QMAXLEVEL,
             q_p = piggy2 (first_local_tree p4) 0\<rparr>)
      else \<lparr>q_x = 0, q_y = 0, q_level = int P4EST_QMAXLEVEL, q_p = piggy2 (-1) 0\<rparr>)"

definition p4est_comm_global_partition :: "p4est list \<Rightarrow> quadrant list" where
  "p4est_comm_global_partition ps =
     foldr (\<lambda>pos rest. (if which_tree (q_p pos) < 0 then hd rest else pos) # rest)
       (map first_position ps)
       [\<lparr>q_x = 0, q_y = 0, q_level = int P4EST_QMAXLEVEL,
         q_p = piggy2 (int (length (trees (hd ps)))) 0\<rparr>]"

text \<open>
  The collective call.  \<open>ps\<close> holds the forest of every process in rank order.  The
  message that process \<open>rank\<close> receives from \<open>from_proc\<close> is the message that
  \<open>from_proc\<close> packs for \<open>rank\<close>.  The result is the forest of every process after the
  call and the value the call returns on every process.
\<close>

definition recv_buf :: "p4est list \<Rightarrow> p4est_locidx_t list \<Rightarrow> nat \<Rightarrow> nat \<Rightarrow> message" where
  "recv_buf ps nc rank from_proc =
     (case send_buf (ps ! from_proc) nc rank of
        Some m \<Rightarrow> m
      | None \<Rightarrow> \<lparr>msg_num_per_tree = [], msg_quads = [], msg_user_data = []\<rparr>)"

definition p4est_partition_given ::
  "p4est list \<Rightarrow> p4est_locidx_t list \<Rightarrow> p4est list \<times> p4est_gloidx_t list" where
  "p4est_partition_given ps nc =
     (let ps1 = map (\<lambda>p4. partition_given_local p4 nc (recv_buf ps nc (nat (mpirank p4)))) ps;
          pos_table = p4est_comm_global_partition ps1
      in (map (\<lambda>p4. p4\<lparr>global_first_position := pos_table\<rparr>) ps1,
          map (\<lambda>p4. total_quadrants_shipped p4 nc) ps))"

section \<open>p4est\_complete\_region (lines 1297-1467)\<close>

text \<open>Modelled from the spec (section 4.1): \<^verbatim>\<open>p4est_nearest_common_ancestor\<close> of
  \<^verbatim>\<open>p4est_bits.c\<close> is not among the sources: ``XOR coordinates, find highest differing
  bit, produce the enclosing quadrant''.  \<open>differing_bits\<close> is the number of low bits up
  to the highest bit in which the 32-bit coordinates differ; the enclosing quadrant is
  \<open>q1\<close> with these bits cleared, at a level no deeper than either argument.  The function
  writes the coordinates and the level of its output parameter \<open>r\<close>.\<close>

definition differing_bits :: "quadrant \<Rightarrow> quadrant \<Rightarrow> nat" where
  "differing_bits q1 q2 =
     length (takeWhile (\<lambda>n. q_x q1 div 2 ^ n \<noteq> q_x q2 div 2 ^ n
                          \<or> q_y q1 div 2 ^ n \<noteq> q_y q2 div 2 ^ n) [0..<32])"

definition p4est_nearest_common_ancestor :: "quadrant \<Rightarrow> quadrant \<Rightarrow> quadrant \<Rightarrow> quadrant" where
  "p4est_nearest_common_ancestor q1 q2 r =
     (let maxlevel = differing_bits q1 q2 in
      r\<lparr>q_x := q_x q1 - q_x q1 mod 2 ^ maxlevel,
        q_y := q_y q1 - q_y q1 mod 2 ^ maxlevel,
        q_level := min (int P4EST_MAXLEVEL - int maxlevel) (min (q_level q1) (q_level q2))\<rparr>)"

text \<open>Modelled from the spec (sections 3, 4.1 and the glossary): \<^verbatim>\<open>p4est_quadrant_children\<close>
  of \<^verbatim>\<open>p4est_bits.c\<close> is not among the sources.  The four children of a quadrant in
  child-id order: one level deeper, the bit of \<open>x\<close> at the new level is bit 0 of the
  child id, the bit of \<open>y\<close> is bit 1.  The children are written into quadrants fresh from
  the pool, whose payload is not set.\<close>

definition p4est_quadrant_children :: "quadrant \<Rightarrow> quadrant list" where
  "p4est_quadrant_children q =
     (let l = q_level q + 1; h = P4EST_QUADRANT_LEN l in
      map (\<lambda>(dx, dy). \<lparr>q_x = q_x q + dx, q_y = q_y q + dy, q_level = l, q_p = user_data None\<rparr>)
        [(0, 0), (h, 0), (0, h), (h, h)])"

text \<open>
  The variables that \<^verbatim>\<open>p4est_complete_region\<close> updates: the forest (its user-data pool
  and the initializer's calls), the array \<^verbatim>\<open>R->quadrants\<close>, the histogram
  \<^verbatim>\<open>R->quadrants_per_level\<close> and the local \<^verbatim>\<open>maxlevel\<close>.
\<close>

record region_state =
  rs_p4est :: p4est
  rs_quadrants :: "quadrant list"
  rs_per_level :: "nat \<Rightarrow> p4est_locidx_t"
  rs_maxlevel :: int

text \<open>``R <- R + q'': the five statements that lines 1354-1358, 1403-1407 and 1447-1451
  repeat.\<close>

definition region_push :: "p4est_topidx_t \<Rightarrow> p4est_init_t \<Rightarrow> quadrant \<Rightarrow> region_state \<Rightarrow> region_state" where
  "region_push wt init_fn q st =
     (let (p4', r) = p4est_quadrant_init_data (rs_p4est st) wt q init_fn in
      \<lparr>rs_p4est = p4',
       rs_quadrants = rs_quadrants st @ [r],
       rs_per_level = (rs_per_level st)(nat (q_level r) := rs_per_level st (nat (q_level r)) + 1),
       rs_maxlevel = max (q_level r) (rs_maxlevel st)\<rparr>)"

text \<open>The loop over the work list \<open>W\<close> (lines 1392-1443).  \<^verbatim>\<open>p4est_quadrant_list_pop\<close>
  takes the first element; the children are prepended in reverse, so the child with
  id 0 is popped next.  The work quadrants live in the quadrant pool and are returned
  to it when popped; the list holds them by value here.\<close>

function region_loop ::
  "quadrant \<Rightarrow> quadrant \<Rightarrow> p4est_topidx_t \<Rightarrow> p4est_init_t \<Rightarrow> quadrant list \<Rightarrow> region_state
     \<Rightarrow> region_state" where
  "region_loop a b wt init_fn [] st = st"
| "region_loop a b wt init_fn (w # W) st =
     (if (p4est_quadrant_compare a w < 0 \<and> p4est_quadrant_compare w b < 0)
         \<and> \<not> p4est_quadrant_is_ancestor w b
      then region_loop a b wt init_fn W (region_push wt init_fn w st)
      else if p4est_quadrant_is_ancestor w a \<or> p4est_quadrant_is_ancestor w b
      then region_loop a b wt init_fn (p4est_quadrant_children w @ W) st
      else region_loop a b wt init_fn W st)"
  by pat_completeness auto
termination
proof (relation "measure (\<lambda>(a, b, wt, init_fn, W, st).
         sum_list (map (\<lambda>w. 5 ^ nat (max (q_level a) (q_level b) - q_level w)) W))")
  show "wf (measure (\<lambda>(a, b, wt, init_fn, W, st).
         sum_list (map (\<lambda>w. (5::nat) ^ nat (max (q_level a) (q_level b) - q_level w)) W)))"
    by simp
next
  fix a b :: quadrant and wt :: p4est_topidx_t and init_fn :: p4est_init_t
    and w :: quadrant and W :: "quadrant list" and st :: region_state
  show "((a, b, wt, init_fn, W, region_push wt init_fn w st), (a, b, wt, init_fn, w # W, st))
      \<in> measure (\<lambda>(a, b, wt, init_fn, W, st).
         sum_list (map (\<lambda>w. 5 ^ nat (max (q_level a) (q_level b) - q_level w)) W))"
    by simp
  show "((a, b, wt, init_fn, W, st), (a, b, wt, init_fn, w # W, st))
      \<in> measure (\<lambda>(a, b, wt, init_fn, W, st).
         sum_list (map (\<lambda>w. 5 ^ nat (max (q_level a) (q_level b) - q_level w)) W))"
    by simp
  assume "p4est_quadrant_is_ancestor w a \<or> p4est_quadrant_is_ancestor w b"
  then have "q_level w < max (q_level a) (q_level b)"
    by (auto simp: p4est_quadrant_is_ancestor_def)
  then have "nat (max (q_level a) (q_level b) - q_level w)
      = Suc (nat (max (q_level a) (q_level b) - (q_level w + 1)))"
    by simp
  then show "((a, b, wt, init_fn, p4est_quadrant_children w @ W, st), (a, b, wt, init_fn, w # W, st))
      \<in> measure (\<lambda>(a, b, wt, init_fn, W, st).
         sum_list (map (\<lambda>w. 5 ^ nat (max (q_level a) (q_level b) - q_level w)) W))"
    by (simp add: p4est_quadrant_children_def Let_def)
qed

declare region_loop.simps [simp del]

text \<open>
  \<^verbatim>\<open>p4est_complete_region\<close>.  The tree \<open>R\<close> is the parameter \<open>tree\<close>, updated in place; the
  result is the forest and the tree after the call.  The assertions of the debug build
  are the predicates \<open>complete_region_entry\<close> (lines 1346-1350) and
  \<^verbatim>\<open>p4est_tree_is_complete (R)\<close> (line 1461).
\<close>

definition p4est_complete_region ::
  "p4est \<Rightarrow> quadrant \<Rightarrow> bool \<Rightarrow> quadrant \<Rightarrow> bool \<Rightarrow> tree \<Rightarrow> p4est_topidx_t \<Rightarrow> p4est_init_t
     \<Rightarrow> p4est \<times> tree" where
  "p4est_complete_region p4 q1 include_q1 q2 include_q2 tree wt init_fn =
     (let a = q1; b = q2;
          st0 = \<lparr>rs_p4est = p4, rs_quadrants = quadrants tree,
                 rs_per_level = quadrants_per_level tree, rs_maxlevel = 0\<rparr>;
          comp = p4est_quadrant_compare a b;
          st1 = (if include_q1 then region_push wt init_fn a st0 else st0);
          st3 = (if comp < 0 then
                   (let Afinest = p4est_nearest_common_ancestor a b P4EST_QUADRANT_INIT;
                        W = p4est_quadrant_children Afinest;
                        st2 = region_loop a b wt init_fn W st1
                    in if include_q2 then region_push wt init_fn b st2 else st2)
                 else st1)
      in (rs_p4est st3,
          tree\<lparr>quadrants := rs_quadrants st3,
               quadrants_per_level := rs_per_level st3,
               maxlevel := rs_maxlevel st3\<rparr>))"

definition complete_region_entry :: "quadrant \<Rightarrow> quadrant \<Rightarrow> tree \<Rightarrow> bool" where
  "complete_region_entry q1 q2 tree \<longleftrightarrow>
     length (quadrants tree) = 0 \<and> p4est_quadrant_compare q1 q2 < 0"

section \<open>p4est\_quadrant\_checksum (lines 102-147) and the checksum of a forest\<close>

text \<open>\<^verbatim>\<open>htonl ((uint32_t) v)\<close>: the four bytes of the 32-bit two's complement
  representation of \<open>v\<close>, the most significant first.\<close>

definition htonl :: "int \<Rightarrow> nat list" where
  "htonl v =
     (let u = nat (v mod 2 ^ 32) in
      [u div 2 ^ 24 mod 256, u div 2 ^ 16 mod 256, u div 2 ^ 8 mod 256, u mod 256])"

text \<open>The loop of lines 126-138: \<^verbatim>\<open>checkarray\<close> holds \<open>x\<close>, \<open>y\<close> and \<open>level\<close> of every
  quadrant from \<open>first_quadrant\<close> on.\<close>

definition checkarray_of :: "quadrant list \<Rightarrow> nat \<Rightarrow> nat list" where
  "checkarray_of qs first_quadrant =
     concat (map (\<lambda>q. htonl (q_x q) @ htonl (q_y q) @ htonl (q_level q))
               (drop first_quadrant qs))"

text \<open>\<^verbatim>\<open>sc_array_checksum\<close> (libsc) is a parameter: a function from the bytes of an array
  to its checksum.\<close>

definition p4est_quadrant_checksum :: "(nat list \<Rightarrow> nat) \<Rightarrow> quadrant list \<Rightarrow> nat \<Rightarrow> nat" where
  "p4est_quadrant_checksum sc_array_checksum qs first_quadrant =
     sc_array_checksum (checkarray_of qs first_quadrant)"

text \<open>Modelled from the spec (section 6, Checksum, and the glossary): \<^verbatim>\<open>p4est_checksum\<close>
  of \<^verbatim>\<open>p4est.c\<close> is not among the sources.  The checksum of a forest is the checksum
  over the bytes \<open>(x, y, level)\<close> of every local leaf in tree-major order, combined
  across the processes in rank order: the checksum of the concatenation.\<close>

definition local_check_bytes :: "p4est \<Rightarrow> nat list" where
  "local_check_bytes p4 =
     concat (map (\<lambda>wt. checkarray_of (quadrants (trees p4 ! nat wt)) 0)
               [first_local_tree p4 .. last_local_tree p4])"

definition p4est_checksum :: "(nat list \<Rightarrow> nat) \<Rightarrow> p4est list \<Rightarrow> nat" where
  "p4est_checksum sc_array_checksum ps =
     sc_array_checksum (concat (map local_check_bytes ps))"

section \<open>Notions used to state the properties\<close>

text \<open>What \<^verbatim>\<open>p4est_linearize_tree\<close> is to compute: an element is dropped when it equals its
  successor or is an ancestor of it.\<close>

fun remove_ancestors :: "quadrant list \<Rightarrow> quadrant list" where
  "remove_ancestors [] = []"
| "remove_ancestors [q] = [q]"
| "remove_ancestors (q1 # q2 # qs) =
     (if p4est_quadrant_is_equal q1 q2 \<or> p4est_quadrant_is_ancestor q1 q2
      then remove_ancestors (q2 # qs) else q1 # remove_ancestors (q2 # qs))"

text \<open>The number of quadrants of a level: what \<^verbatim>\<open>quadrants_per_level\<close> is to hold.\<close>

definition count_level :: "quadrant list \<Rightarrow> nat \<Rightarrow> int" where
  "count_level qs l = int (length (filter (\<lambda>q. q_level q = int l) qs))"


text \<open>Concrete inputs for the worked examples.\<close>

definition ex_quad :: "int \<Rightarrow> int \<Rightarrow> int \<Rightarrow> quadrant" where
  "ex_quad a b l = \<lparr>q_x = a, q_y = b, q_level = l, q_p = user_data None\<rparr>"

definition ex_forest :: p4est where
  "ex_forest = \<lparr>mpisize = 1, mpirank = 0, data_size = 0, first_local_tree = 0,
     last_local_tree = 0, local_num_quadrants = 0, global_num_quadrants = 0,
     global_first_quadrant = [], global_first_position = [], trees = [],
     user_data_pool = 0, init_calls = []\<rparr>"

text \<open>The histogram of a tree as the library keeps it: the entries
  \<open>0 .. P4EST_QMAXLEVEL\<close> count the quadrants of a level, the entry \<open>P4EST_MAXLEVEL\<close>
  is \<open>-1\<close> (asserted at line 610).\<close>

definition ex_histogram :: "quadrant list \<Rightarrow> nat \<Rightarrow> p4est_locidx_t" where
  "ex_histogram qs l = (if l \<le> P4EST_QMAXLEVEL then count_level qs l else -1)"

definition ex_tree :: "quadrant list \<Rightarrow> tree" where
  "ex_tree qs = \<lparr>quadrants = qs, first_desc = P4EST_QUADRANT_INIT,
     last_desc = P4EST_QUADRANT_INIT, quadrants_offset = 0,
     quadrants_per_level = ex_histogram qs,
     maxlevel = 0\<rparr>"


text \<open>The key by which \<^verbatim>\<open>p4est_quadrant_compare_piggy\<close> orders extended quadrants:
  tree tag, Morton index, level, compared lexicographically.\<close>

definition piggy_key :: "quadrant \<Rightarrow> int \<times> int \<times> int" where
  "piggy_key q = (which_tree (q_p q), morton_index q, q_level q)"

text \<open>What the loop of \<^verbatim>\<open>p4est_tree_uniqify_overlap\<close> is to compute on the sorted array:
  an entry is dropped when it equals its successor or is found in the skip list.\<close>

fun uniq_skip :: "quadrant list \<Rightarrow> quadrant list \<Rightarrow> quadrant list" where
  "uniq_skip skip [] = []"
| "uniq_skip skip [a] =
     (if sc_array_bsearch skip a p4est_quadrant_compare_piggy \<noteq> -1 then [] else [a])"
| "uniq_skip skip (a # b # bs) =
     (if p4est_quadrant_is_equal_piggy a b then uniq_skip skip (b # bs)
      else if sc_array_bsearch skip a p4est_quadrant_compare_piggy \<noteq> -1
      then uniq_skip skip (b # bs)
      else a # uniq_skip skip (b # bs))"

definition ex_piggy :: "int \<Rightarrow> int \<Rightarrow> int \<Rightarrow> int \<Rightarrow> quadrant" where
  "ex_piggy t a b l = \<lparr>q_x = a, q_y = b, q_level = l, q_p = piggy2 t 0\<rparr>"

definition ex_overlap :: "quadrant list" where
  "ex_overlap = [ex_piggy 0 0 0 2, ex_piggy 1 0 0 1, ex_piggy 0 0 0 1, ex_piggy 0 536870912 0 1,
                 ex_piggy 0 0 0 2, ex_piggy 0 0 0 2]"

definition ex_skip :: "quadrant list" where
  "ex_skip = [ex_piggy 0 536870912 0 1, ex_piggy 1 0 0 1]"

definition ex_empty_rank :: "int \<Rightarrow> p4est" where
  "ex_empty_rank r = \<lparr>mpisize = 2, mpirank = r, data_size = 0, first_local_tree = -1,
     last_local_tree = -2, local_num_quadrants = 0, global_num_quadrants = 0,
     global_first_quadrant = [0, 0, 0], global_first_position = [], trees = [],
     user_data_pool = 0, init_calls = []\<rparr>"

text \<open>A forest of two trees on three processes: the four children of the root of tree 0
  and the root of tree 1, owned 2 + 1 + 2, with one byte of payload per quadrant.\<close>

definition ex_leaf :: "int \<Rightarrow> int \<Rightarrow> int \<Rightarrow> nat \<Rightarrow> quadrant" where
  "ex_leaf a b l d = \<lparr>q_x = a, q_y = b, q_level = l, q_p = user_data (Some [d])\<rparr>"

definition ex_full_tree :: "quadrant list \<Rightarrow> int \<Rightarrow> tree" where
  "ex_full_tree qs off =
     \<lparr>quadrants = qs,
      first_desc = (if qs = [] then P4EST_QUADRANT_INIT
                    else p4est_quadrant_first_descendant (hd qs) (int P4EST_QMAXLEVEL)),
      last_desc = (if qs = [] then P4EST_QUADRANT_INIT
                   else p4est_quadrant_last_descendant (last qs) (int P4EST_QMAXLEVEL)),
      quadrants_offset = off,
      quadrants_per_level = ex_histogram qs,
      maxlevel = Max (insert 0 (q_level ` set qs))\<rparr>"

definition ex_position :: "int \<Rightarrow> int \<Rightarrow> int \<Rightarrow> quadrant" where
  "ex_position t a b = \<lparr>q_x = a, q_y = b, q_level = int P4EST_QMAXLEVEL, q_p = piggy2 t 0\<rparr>"

definition ex_process :: "int \<Rightarrow> int \<Rightarrow> int \<Rightarrow> int \<Rightarrow> tree list \<Rightarrow> p4est" where
  "ex_process r f l n ts =
     \<lparr>mpisize = 3, mpirank = r, data_size = 1, first_local_tree = f, last_local_tree = l,
      local_num_quadrants = n, global_num_quadrants = 5,
      global_first_quadrant = [0, 2, 3, 5],
      global_first_position =
        [ex_position 0 0 0, ex_position 0 0 536870912, ex_position 0 536870912 536870912,
         ex_position 2 0 0],
      trees = ts, user_data_pool = nat n, init_calls = []\<rparr>"

definition ex_partition :: "p4est list" where
  "ex_partition =
     [ex_process 0 0 0 2
        [ex_full_tree [ex_leaf 0 0 1 10, ex_leaf 536870912 0 1 11] 0, ex_full_tree [] 2],
      ex_process 1 0 0 1
        [ex_full_tree [ex_leaf 0 536870912 1 12] 0, ex_full_tree [] 1],
      ex_process 2 0 1 2
        [ex_full_tree [ex_leaf 536870912 536870912 1 13] 0, ex_full_tree [ex_leaf 0 0 0 14] 1]]"

text \<open>
  The process that owns the quadrant with global index \<open>g\<close> under a partition given by
  the global index of the last quadrant of every process: the number of processes whose
  last index lies below \<open>g\<close> (for ascending last indices, the rank \<open>p\<close> with
  \<open>last (p - 1) < g \<le> last p\<close>).  \<open>migrated\<close> counts the quadrants whose owner changes
  between the old partition and the new one.
\<close>

definition owner :: "p4est_gloidx_t list \<Rightarrow> p4est_gloidx_t \<Rightarrow> nat" where
  "owner last_index g = length (filter (\<lambda>l. l < g) last_index)"

definition migrated :: "p4est \<Rightarrow> p4est_locidx_t list \<Rightarrow> int" where
  "migrated p4 nc =
     int (length (filter (\<lambda>g. owner (global_last_quad_index p4) g
                               \<noteq> owner (new_global_last_quad_index p4 nc) g)
                    [0 .. global_num_quadrants p4 - 1]))"

text \<open>
  What \<open>p4est_partition_given\<close> requires of its input: the partition table
  \<open>global_first_quadrant[0..P]\<close> of a forest on \<open>P > 0\<close> processes starts at zero, ascends
  and ends at the global number of quadrants; there is one new count per process, none
  negative (asserted at line 2628), and together they make the global number of quadrants
  (asserted at line 2631).
\<close>

definition partition_input :: "p4est \<Rightarrow> p4est_locidx_t list \<Rightarrow> bool" where
  "partition_input p4 nc \<longleftrightarrow>
     0 < mpisize p4
     \<and> length (global_first_quadrant p4) = nat (mpisize p4) + 1
     \<and> global_first_quadrant p4 ! 0 = 0
     \<and> sorted (global_first_quadrant p4)
     \<and> last (global_first_quadrant p4) = global_num_quadrants p4
     \<and> length nc = nat (mpisize p4)
     \<and> list_all (\<lambda>c. 0 \<le> c) nc
     \<and> sum_list nc = global_num_quadrants p4"

text \<open>Two processes of one forest hold the same replicated global data.\<close>

definition same_globals :: "p4est \<Rightarrow> p4est \<Rightarrow> bool" where
  "same_globals p q \<longleftrightarrow>
     mpisize p = mpisize q
     \<and> global_first_quadrant p = global_first_quadrant q
     \<and> global_num_quadrants p = global_num_quadrants q"

text \<open>The summand that the loop of lines 2652-2662 adds for the process boundary \<open>i\<close>.\<close>

definition shipped_step :: "p4est_gloidx_t list \<Rightarrow> p4est_gloidx_t list \<Rightarrow> p4est_locidx_t list \<Rightarrow> nat \<Rightarrow> int" where
  "shipped_step G N nc i =
     (let diff64 = G ! (i - 1) - N ! (i - 1) in
      if diff64 \<ge> 0 then min diff64 (nc ! i) else min (- diff64) (nc ! (i - 1)))"

text \<open>The coordinates and the level of a quadrant, without its payload.\<close>

definition coords :: "quadrant \<Rightarrow> int \<times> int \<times> int" where
  "coords q = (q_x q, q_y q, q_level q)"

text \<open>\<^verbatim>\<open>p4est_complete_region\<close> between the root quadrant and its last child, into an empty
  tree, the child included.\<close>

definition ex_region :: "bool \<Rightarrow> p4est \<times> tree" where
  "ex_region include_q1 =
     p4est_complete_region ex_forest (ex_quad 0 0 0) include_q1
       (ex_quad 536870912 536870912 1) True (ex_tree []) 0 None"

text \<open>The leaves of a process in tree-major order.\<close>

definition local_leaves :: "p4est \<Rightarrow> quadrant list" where
  "local_leaves p4 =
     concat (map (\<lambda>wt. quadrants (trees p4 ! nat wt))
               [first_local_tree p4 .. last_local_tree p4])"

text \<open>
  The invariants of a forest (spec, section 3) that \<^verbatim>\<open>p4est_partition_given\<close> relies on,
  for the process \<open>r\<close> of the forest \<open>ps\<close>: it knows its rank and the number of processes;
  the replicated tables agree with those of process 0; its share of
  \<open>global_first_quadrant\<close> is the number of its leaves; it is empty, encoded by
  \<open>(-1, -2)\<close>, or its trees \<open>first_local_tree .. last_local_tree\<close> exist, the first is the
  tree of its entry of \<open>global_first_position\<close> and the last is not beyond the tree of the
  next entry; the trees outside this range hold no quadrants.
\<close>

definition tree_of_position :: "p4est \<Rightarrow> nat \<Rightarrow> p4est_topidx_t" where
  "tree_of_position p4 i = which_tree (q_p (global_first_position p4 ! i))"

definition valid_process :: "p4est list \<Rightarrow> nat \<Rightarrow> bool" where
  "valid_process ps r \<longleftrightarrow>
     (let p4 = ps ! r; p0 = hd ps in
      mpisize p4 = int (length ps) \<and> mpirank p4 = int r
      \<and> same_globals p4 p0
      \<and> global_first_position p4 = global_first_position p0
      \<and> length (trees p4) = length (trees p0)
      \<and> global_first_quadrant p4 ! (r + 1)
          = global_first_quadrant p4 ! r + int (length (local_leaves p4))
      \<and> (first_local_tree p4 = -1 \<and> last_local_tree p4 = -2
         \<or> 0 \<le> first_local_tree p4 \<and> first_local_tree p4 \<le> last_local_tree p4
           \<and> last_local_tree p4 < int (length (trees p4))
           \<and> tree_of_position p4 r = first_local_tree p4
           \<and> last_local_tree p4 \<le> tree_of_position p4 (r + 1))
      \<and> list_all (\<lambda>wt. first_local_tree p4 \<le> int wt \<and> int wt \<le> last_local_tree p4
                        \<or> quadrants (trees p4 ! wt) = [])
           [0..<length (trees p4)])"

text \<open>A forest: every process is as above, the trees of the entries of
  \<open>global_first_position[0..P]\<close> ascend, and the number of trees is a value of
  \<^verbatim>\<open>p4est_topidx_t\<close>.\<close>

definition valid_forest :: "p4est list \<Rightarrow> bool" where
  "valid_forest ps \<longleftrightarrow>
     ps \<noteq> []
     \<and> list_all (valid_process ps) [0..<length ps]
     \<and> length (global_first_position (hd ps)) = length ps + 1
     \<and> sorted (map (tree_of_position (hd ps)) [0..<length ps + 1])
     \<and> int (length (trees (hd ps))) \<le> P4EST_TOPIDX_MAX"

text \<open>The elements of an array whose global indices lie in \<open>[lo, hi]\<close>, when the first
  element of the array has the global index \<open>off\<close>.\<close>

definition clip :: "'a list \<Rightarrow> int \<Rightarrow> int \<Rightarrow> int \<Rightarrow> 'a list" where
  "clip xs off lo hi = drop (nat (lo - off)) (take (nat (hi + 1 - off)) xs)"

text \<open>
  What \<^verbatim>\<open>p4est_is_valid\<close> is to establish, in the words of the specification (sections 3
  and 7): one condition for every diagnostic label.  \<open>my_position\<close> and \<open>next_position\<close>
  are the entries of this process and of the next one in \<open>global_first_position\<close>;
  \<open>position_quadrant\<close> is such an entry as a quadrant of the deepest level.
\<close>

definition my_position :: "p4est \<Rightarrow> quadrant" where
  "my_position p4 = global_first_position p4 ! nat (mpirank p4)"

definition next_position :: "p4est \<Rightarrow> quadrant" where
  "next_position p4 = global_first_position p4 ! nat (mpirank p4 + 1)"

definition next_tree :: "p4est \<Rightarrow> p4est_topidx_t" where
  "next_tree p4 = which_tree (q_p (next_position p4))"

definition position_quadrant :: "quadrant \<Rightarrow> quadrant" where
  "position_quadrant pos =
     \<lparr>q_x = q_x pos, q_y = q_y pos, q_level = int P4EST_QMAXLEVEL, q_p = q_p P4EST_QUADRANT_INIT\<rparr>"

text \<open>An empty process is encoded by the tree range \<open>(-1, -2)\<close>.\<close>

definition range_A_ok :: "p4est \<Rightarrow> bool" where
  "range_A_ok p4 \<longleftrightarrow>
     (first_local_tree p4 < 0 \<longrightarrow> first_local_tree p4 = -1 \<and> last_local_tree p4 = -2)"

definition range_B_ok :: "p4est \<Rightarrow> bool" where
  "range_B_ok p4 \<longleftrightarrow>
     (last_local_tree p4 < 0 \<longrightarrow> first_local_tree p4 = -1 \<and> last_local_tree p4 = -2)"

text \<open>The first local tree is the tree of the process's position, and its first quadrant
  starts at that position.\<close>

definition first_tree_ok :: "p4est \<Rightarrow> bool" where
  "first_tree_ok p4 \<longleftrightarrow>
     (0 \<le> first_local_tree p4 \<longrightarrow> which_tree (q_p (my_position p4)) = first_local_tree p4)"

definition low_quadrant_ok :: "p4est \<Rightarrow> bool" where
  "low_quadrant_ok p4 \<longleftrightarrow>
     (0 \<le> first_local_tree p4 \<longrightarrow>
        (let qs = quadrants (trees p4 ! nat (first_local_tree p4)) in
         qs \<noteq> [] \<longrightarrow> q_x (hd qs) = q_x (my_position p4) \<and> q_y (hd qs) = q_y (my_position p4)))"

text \<open>The last local tree is the tree of the next process's position or the tree before
  it; in the second case that position is the origin of its tree and the last quadrant
  ends in the last corner of the last local tree, in the first case the last quadrant is
  followed by that position.\<close>

definition last_tree_ok :: "p4est \<Rightarrow> bool" where
  "last_tree_ok p4 \<longleftrightarrow>
     (0 \<le> last_local_tree p4 \<longrightarrow>
        next_tree p4 = last_local_tree p4 \<or> next_tree p4 = last_local_tree p4 + 1)"

definition next_coordinates_ok :: "p4est \<Rightarrow> bool" where
  "next_coordinates_ok p4 \<longleftrightarrow>
     (0 \<le> last_local_tree p4 \<and> next_tree p4 = last_local_tree p4 + 1 \<longrightarrow>
        q_x (next_position p4) = 0 \<and> q_y (next_position p4) = 0)"

definition next_quadrant_ok :: "p4est \<Rightarrow> bool" where
  "next_quadrant_ok p4 \<longleftrightarrow>
     (0 \<le> last_local_tree p4 \<and> next_tree p4 = last_local_tree p4 \<longrightarrow>
        (let qs = quadrants (trees p4 ! nat (last_local_tree p4)) in
         qs \<noteq> [] \<longrightarrow> p4est_quadrant_is_next (last qs) (position_quadrant (next_position p4))))"

definition last_quadrant_ok :: "p4est \<Rightarrow> bool" where
  "last_quadrant_ok p4 \<longleftrightarrow>
     (0 \<le> last_local_tree p4 \<and> next_tree p4 = last_local_tree p4 + 1 \<longrightarrow>
        (let qs = quadrants (trees p4 ! nat (last_local_tree p4));
             s = p4est_quadrant_last_descendant (last qs) (int P4EST_QMAXLEVEL);
             mh = P4EST_QUADRANT_LEN (int P4EST_QMAXLEVEL)
         in qs \<noteq> [] \<longrightarrow> q_x s + mh = P4EST_ROOT_LEN \<and> q_y s + mh = P4EST_ROOT_LEN))"

text \<open>The conditions on every tree \<open>jt\<close> of the forest: \<open>quadrants_offset\<close> is the number of
  quadrants in the trees before; the leaves are complete; only local trees hold
  quadrants; the cached descendants are those of the first and the last leaf, and of
  level \<open>-1\<close> in an empty tree; \<open>maxlevel\<close> is the deepest level with a positive count (zero
  if there is none); the counts per level add up to the number of leaves.\<close>

definition all_trees :: "(p4est \<Rightarrow> nat \<Rightarrow> bool) \<Rightarrow> p4est \<Rightarrow> bool" where
  "all_trees c p4 \<longleftrightarrow> (\<forall>jt<length (trees p4). c p4 jt)"

definition quadrants_before :: "p4est \<Rightarrow> nat \<Rightarrow> int" where
  "quadrants_before p4 jt = sum_list (map (\<lambda>t. int (length (quadrants t))) (take jt (trees p4)))"

definition offset_ok :: "p4est \<Rightarrow> nat \<Rightarrow> bool" where
  "offset_ok p4 jt \<longleftrightarrow> quadrants_offset (trees p4 ! jt) = quadrants_before p4 jt"

definition complete_ok :: "p4est \<Rightarrow> nat \<Rightarrow> bool" where
  "complete_ok p4 jt \<longleftrightarrow> p4est_tree_is_complete (trees p4 ! jt)"

definition inside_ok :: "p4est \<Rightarrow> nat \<Rightarrow> bool" where
  "inside_ok p4 jt \<longleftrightarrow>
     (quadrants (trees p4 ! jt) \<noteq> [] \<longrightarrow>
        first_local_tree p4 \<le> int jt \<and> int jt \<le> last_local_tree p4)"

definition first_desc_ok :: "p4est \<Rightarrow> nat \<Rightarrow> bool" where
  "first_desc_ok p4 jt \<longleftrightarrow>
     (let t = trees p4 ! jt in
      quadrants t \<noteq> [] \<longrightarrow>
        p4est_quadrant_is_equal
          (p4est_quadrant_first_descendant (hd (quadrants t)) (int P4EST_QMAXLEVEL)) (first_desc t))"

definition last_desc_ok :: "p4est \<Rightarrow> nat \<Rightarrow> bool" where
  "last_desc_ok p4 jt \<longleftrightarrow>
     (let t = trees p4 ! jt in
      quadrants t \<noteq> [] \<longrightarrow>
        p4est_quadrant_is_equal
          (p4est_quadrant_last_descendant (last (quadrants t)) (int P4EST_QMAXLEVEL)) (last_desc t))"

definition empty_desc_ok :: "p4est \<Rightarrow> nat \<Rightarrow> bool" where
  "empty_desc_ok p4 jt \<longleftrightarrow>
     (let t = trees p4 ! jt in
      quadrants t = [] \<longrightarrow> q_level (first_desc t) = -1 \<and> q_level (last_desc t) = -1)"

definition deepest_level :: "(nat \<Rightarrow> p4est_locidx_t) \<Rightarrow> int" where
  "deepest_level qpl = Max (insert 0 (int ` {l. l \<le> P4EST_QMAXLEVEL \<and> 0 < qpl l}))"

definition maxlevel_ok :: "p4est \<Rightarrow> nat \<Rightarrow> bool" where
  "maxlevel_ok p4 jt \<longleftrightarrow>
     maxlevel (trees p4 ! jt) = deepest_level (quadrants_per_level (trees p4 ! jt))"

definition count_ok :: "p4est \<Rightarrow> nat \<Rightarrow> bool" where
  "count_ok p4 jt \<longleftrightarrow>
     sum_list (map (quadrants_per_level (trees p4 ! jt)) [0..<Suc P4EST_QMAXLEVEL])
       = int (length (quadrants (trees p4 ! jt)))"

text \<open>\<open>local_num_quadrants\<close> is the number of quadrants in all trees, and
  \<open>global_first_quadrant\<close> starts at zero and ends at \<open>global_num_quadrants\<close>.\<close>

definition local_count_ok :: "p4est \<Rightarrow> bool" where
  "local_count_ok p4 \<longleftrightarrow> local_num_quadrants p4 = quadrants_before p4 (length (trees p4))"

definition global_index_ok :: "p4est \<Rightarrow> bool" where
  "global_index_ok p4 \<longleftrightarrow>
     global_first_quadrant p4 ! 0 = 0
     \<and> global_first_quadrant p4 ! nat (mpisize p4) = global_num_quadrants p4"

text \<open>The diagnostic labels with the conditions whose violation they report, in the order
  of the checks.\<close>

definition validity_conditions :: "(string \<times> (p4est \<Rightarrow> bool)) list" where
  "validity_conditions =
     [(''p4est invalid empty tree range A'', range_A_ok),
      (''p4est invalid first tree'', first_tree_ok),
      (''p4est invalid low quadrant'', low_quadrant_ok),
      (''p4est invalid empty tree range B'', range_B_ok),
      (''p4est invalid last tree'', last_tree_ok),
      (''p4est invalid next coordinates'', next_coordinates_ok),
      (''p4est invalid next quadrant'', next_quadrant_ok),
      (''p4est invalid last quadrant'', last_quadrant_ok),
      (''p4est invalid quadrants offset'', all_trees offset_ok),
      (''p4est invalid not complete'', all_trees complete_ok),
      (''p4est invalid outside count'', all_trees inside_ok),
      (''p4est invalid first tree descendant'', all_trees first_desc_ok),
      (''p4est invalid last tree descendant'', all_trees last_desc_ok),
      (''p4est invalid empty descendant'', all_trees empty_desc_ok),
      (''p4est invalid wrong maxlevel'', all_trees maxlevel_ok),
      (''p4est invalid tree quadrant count'', all_trees count_ok),
      (''p4est invalid local quadrant count'', local_count_ok),
      (''p4est invalid global quadrant index'', global_index_ok)]"

definition process_valid :: "p4est \<Rightarrow> bool" where
  "process_valid p4 \<longleftrightarrow> (\<forall>(l, c)\<in>set validity_conditions. c p4)"

text \<open>The labels and conditions of the checks of one tree.\<close>

definition tree_conditions :: "(string \<times> (p4est \<Rightarrow> nat \<Rightarrow> bool)) list" where
  "tree_conditions =
     [(''p4est invalid quadrants offset'', offset_ok),
      (''p4est invalid not complete'', complete_ok),
      (''p4est invalid outside count'', inside_ok),
      (''p4est invalid first tree descendant'', first_desc_ok),
      (''p4est invalid last tree descendant'', last_desc_ok),
      (''p4est invalid empty descendant'', empty_desc_ok),
      (''p4est invalid wrong maxlevel'', maxlevel_ok),
      (''p4est invalid tree quadrant count'', count_ok)]"

text \<open>The example forest with a wrong \<open>local_num_quadrants\<close> on process 1, and a process
  with one of its trees changed.\<close>

definition ex_bad_count :: "p4est list" where
  "ex_bad_count = ex_partition[1 := (ex_partition ! 1)\<lparr>local_num_quadrants := 7\<rparr>]"

definition ex_with_tree :: "p4est \<Rightarrow> nat \<Rightarrow> (tree \<Rightarrow> tree) \<Rightarrow> p4est" where
  "ex_with_tree p4 jt f = p4\<lparr>trees := (trees p4)[jt := f (trees p4 ! jt)]\<rparr>"

section \<open>Properties of the Morton order\<close>

lemma morton_bounds: "0 \<le> morton n a b \<and> morton n a b < 4 ^ n"
proof (induction n arbitrary: a b)
  case 0
  show ?case by simp
next
  case (Suc n)
  have h: "0 \<le> morton n (a div 2) (b div 2) \<and> morton n (a div 2) (b div 2) < 4 ^ n"
    by (rule Suc.IH)
  have "0 \<le> a mod 2" "a mod 2 < 2" "0 \<le> b mod 2" "b mod 2 < 2" by simp_all
  with h show ?case by simp linarith
qed

lemma morton_split:
  "morton (n + k) a b = 4 ^ k * morton n (a div 2 ^ k) (b div 2 ^ k) + morton k a b"
proof (induction k arbitrary: a b)
  case 0
  show ?case by simp
next
  case (Suc k)
  have d: "a div 2 div 2 ^ k = a div 2 ^ Suc k" "b div 2 div 2 ^ k = b div 2 ^ Suc k"
    by (simp_all add: zdiv_zmult2_eq)
  have "morton (n + Suc k) a b = 4 * morton (n + k) (a div 2) (b div 2) + 2 * (b mod 2) + a mod 2"
    by simp
  also have "morton (n + k) (a div 2) (b div 2) =
      4 ^ k * morton n (a div 2 div 2 ^ k) (b div 2 div 2 ^ k) + morton k (a div 2) (b div 2)"
    by (rule Suc.IH)
  finally show ?case unfolding d by (simp add: algebra_simps)
qed

lemma morton_inj:
  "morton n a b = morton n a' b' \<longleftrightarrow> a mod 2 ^ n = a' mod 2 ^ n \<and> b mod 2 ^ n = b' mod 2 ^ n"
proof (induction n arbitrary: a b a' b')
  case 0
  show ?case by simp
next
  case (Suc n)
  have bits: "\<And>(m::int) m' r r' s s'. 0 \<le> r \<Longrightarrow> r < 2 \<Longrightarrow> 0 \<le> r' \<Longrightarrow> r' < 2 \<Longrightarrow>
      0 \<le> s \<Longrightarrow> s < 2 \<Longrightarrow> 0 \<le> s' \<Longrightarrow> s' < 2 \<Longrightarrow>
      (4 * m + 2 * r + s = 4 * m' + 2 * r' + s') = (m = m' \<and> r = r' \<and> s = s')"
    by presburger
  have m2: "\<And>(c::int) c'. (c mod 2 ^ Suc n = c' mod 2 ^ Suc n) =
      (c mod 2 = c' mod 2 \<and> (c div 2) mod 2 ^ n = (c' div 2) mod 2 ^ n)"
  proof -
    fix c c' :: int
    have e: "d mod 2 ^ Suc n = 2 * ((d div 2) mod 2 ^ n) + d mod 2" for d :: int
      using zmod_zmult2_eq [of "2 ^ n" d 2] by simp
    have aux: "\<And>(u::int) u' r r'. 0 \<le> r \<Longrightarrow> r < 2 \<Longrightarrow> 0 \<le> r' \<Longrightarrow> r' < 2 \<Longrightarrow>
        (2 * u + r = 2 * u' + r') = (r = r' \<and> u = u')"
      by presburger
    show "(c mod 2 ^ Suc n = c' mod 2 ^ Suc n) =
      (c mod 2 = c' mod 2 \<and> (c div 2) mod 2 ^ n = (c' div 2) mod 2 ^ n)"
      unfolding e [of c] e [of c'] by (rule aux) simp_all
  qed
  have "(morton (Suc n) a b = morton (Suc n) a' b') =
     (morton n (a div 2) (b div 2) = morton n (a' div 2) (b' div 2) \<and> b mod 2 = b' mod 2 \<and> a mod 2 = a' mod 2)"
    by (simp only: morton.simps, rule bits) simp_all
  also have "\<dots> = ((a div 2) mod 2 ^ n = (a' div 2) mod 2 ^ n \<and> (b div 2) mod 2 ^ n = (b' div 2) mod 2 ^ n
      \<and> b mod 2 = b' mod 2 \<and> a mod 2 = a' mod 2)"
    by (simp only: Suc.IH) blast
  finally show ?case unfolding m2 [of a a'] m2 [of b b'] by blast
qed

lemma morton_zero: "morton n 0 0 = 0"
  by (induction n) simp_all

lemma morton_aligned_zero:
  assumes "a mod 2 ^ k = 0" "b mod 2 ^ k = 0"
  shows "morton k a b = 0"
proof -
  have "morton k a b = morton k 0 0"
    using assms by (simp add: morton_inj)
  then show ?thesis by (simp add: morton_zero)
qed

lemma compare_zero_iff:
  "p4est_quadrant_compare a b = 0 \<longleftrightarrow> p4est_quadrant_is_equal a b"
  by (auto simp: p4est_quadrant_compare_def p4est_quadrant_is_equal_def)

lemma coord_window_inj:
  fixes u v :: int
  assumes "u mod 2 ^ (P4EST_MAXLEVEL + 2) = v mod 2 ^ (P4EST_MAXLEVEL + 2)"
    and "- P4EST_ROOT_LEN \<le> u" "u < 2 * P4EST_ROOT_LEN"
    and "- P4EST_ROOT_LEN \<le> v" "v < 2 * P4EST_ROOT_LEN"
  shows "u = v"
proof -
  let ?W = "(2::int) ^ (P4EST_MAXLEVEL + 2)"
  have W: "?W = 4 * P4EST_ROOT_LEN" by (simp add: P4EST_ROOT_LEN_def)
  have pos: "0 < P4EST_ROOT_LEN" by (simp add: P4EST_ROOT_LEN_def)
  have "?W dvd (u - v)" using assms(1) by (simp add: mod_eq_dvd_iff)
  then obtain c where c: "u - v = ?W * c" by (auto simp: dvd_def)
  have "\<bar>u - v\<bar> < ?W" using assms(2-5) pos unfolding W by linarith
  then have "\<bar>?W * c\<bar> < ?W" using c by simp
  then have "\<bar>c\<bar> < 1" by (simp add: abs_mult)
  then have "c = 0" by linarith
  with c show ?thesis by simp
qed

lemma morton_index_inj:
  assumes "p4est_quadrant_is_inside_3x3 a" "p4est_quadrant_is_inside_3x3 b"
    and "morton_index a = morton_index b"
  shows "q_x a = q_x b \<and> q_y a = q_y b"
proof -
  from assms(3) have m: "q_x a mod 2 ^ (P4EST_MAXLEVEL + 2) = q_x b mod 2 ^ (P4EST_MAXLEVEL + 2)"
      "q_y a mod 2 ^ (P4EST_MAXLEVEL + 2) = q_y b mod 2 ^ (P4EST_MAXLEVEL + 2)"
    by (simp_all only: morton_index_def morton_inj)
  show ?thesis
    using coord_window_inj [OF m(1)] coord_window_inj [OF m(2)] assms(1,2)
    by (simp add: p4est_quadrant_is_inside_3x3_def)
qed

lemma compare_neg_iff:
  assumes "p4est_quadrant_is_inside_3x3 a" "p4est_quadrant_is_inside_3x3 b"
  shows "p4est_quadrant_compare a b < 0 \<longleftrightarrow>
     morton_index a < morton_index b \<or> (morton_index a = morton_index b \<and> q_level a < q_level b)"
proof (cases "q_x a = q_x b \<and> q_y a = q_y b")
  case True
  then have "morton_index a = morton_index b" by (simp add: morton_index_def)
  with True show ?thesis by (simp add: p4est_quadrant_compare_def)
next
  case False
  with morton_index_inj [OF assms] have "morton_index a \<noteq> morton_index b" by blast
  with False show ?thesis by (auto simp: p4est_quadrant_compare_def)
qed

lemma compare_le_iff:
  assumes "p4est_quadrant_is_inside_3x3 a" "p4est_quadrant_is_inside_3x3 b"
  shows "p4est_quadrant_compare a b \<le> 0 \<longleftrightarrow>
     morton_index a < morton_index b \<or> (morton_index a = morton_index b \<and> q_level a \<le> q_level b)"
proof (cases "q_x a = q_x b \<and> q_y a = q_y b")
  case True
  then have "morton_index a = morton_index b" by (simp add: morton_index_def)
  with True show ?thesis by (simp add: p4est_quadrant_compare_def)
next
  case False
  with morton_index_inj [OF assms] have "morton_index a \<noteq> morton_index b" by blast
  with False show ?thesis by (auto simp: p4est_quadrant_compare_def)
qed

lemma compare_le_lt_trans:
  assumes "p4est_quadrant_is_inside_3x3 a" "p4est_quadrant_is_inside_3x3 b"
    "p4est_quadrant_is_inside_3x3 c"
    and "p4est_quadrant_compare a b \<le> 0" "p4est_quadrant_compare b c < 0"
  shows "p4est_quadrant_compare a c < 0"
  using assms(4,5)
  unfolding compare_le_iff [OF assms(1,2)] compare_neg_iff [OF assms(2,3)]
    compare_neg_iff [OF assms(1,3)]
  by auto

lemma compare_lt_le_trans:
  assumes "p4est_quadrant_is_inside_3x3 a" "p4est_quadrant_is_inside_3x3 b"
    "p4est_quadrant_is_inside_3x3 c"
    and "p4est_quadrant_compare a b < 0" "p4est_quadrant_compare b c \<le> 0"
  shows "p4est_quadrant_compare a c < 0"
  using assms(4,5)
  unfolding compare_le_iff [OF assms(2,3)] compare_neg_iff [OF assms(1,2)]
    compare_neg_iff [OF assms(1,3)]
  by auto

lemma compare_le_trans:
  assumes "p4est_quadrant_is_inside_3x3 a" "p4est_quadrant_is_inside_3x3 b"
    "p4est_quadrant_is_inside_3x3 c"
    and "p4est_quadrant_compare a b \<le> 0" "p4est_quadrant_compare b c \<le> 0"
  shows "p4est_quadrant_compare a c \<le> 0"
  using assms(4,5)
  unfolding compare_le_iff [OF assms(2,3)] compare_le_iff [OF assms(1,2)]
    compare_le_iff [OF assms(1,3)]
  by auto

lemma compare_antisym_neg:
  assumes "p4est_quadrant_is_inside_3x3 a" "p4est_quadrant_is_inside_3x3 b"
    and "p4est_quadrant_compare a b < 0"
  shows "\<not> p4est_quadrant_compare b a \<le> 0"
  using assms(3)
  unfolding compare_le_iff [OF assms(2,1)] compare_neg_iff [OF assms(1,2)]
  by auto

lemma compare_total:
  assumes "p4est_quadrant_is_inside_3x3 a" "p4est_quadrant_is_inside_3x3 b"
  shows "p4est_quadrant_compare a b \<le> 0 \<or> p4est_quadrant_compare b a < 0"
  unfolding compare_le_iff [OF assms(1,2)] compare_neg_iff [OF assms(2,1)]
  by auto

lemma QUADRANT_LEN_pos: "0 < P4EST_QUADRANT_LEN l"
  by (simp add: P4EST_QUADRANT_LEN_def)

lemma QUADRANT_LEN_mult:
  assumes "l \<le> m"
  shows "P4EST_QUADRANT_LEN l =
     P4EST_QUADRANT_LEN m * 2 ^ ((P4EST_MAXLEVEL - nat l) - (P4EST_MAXLEVEL - nat m))"
proof -
  have "P4EST_MAXLEVEL - nat m \<le> P4EST_MAXLEVEL - nat l" using assms by simp
  then have "P4EST_MAXLEVEL - nat l =
      (P4EST_MAXLEVEL - nat m) + ((P4EST_MAXLEVEL - nat l) - (P4EST_MAXLEVEL - nat m))"
    by linarith
  then have "(2::int) ^ (P4EST_MAXLEVEL - nat l) =
      2 ^ (P4EST_MAXLEVEL - nat m) * 2 ^ ((P4EST_MAXLEVEL - nat l) - (P4EST_MAXLEVEL - nat m))"
    by (simp only: flip: power_add)
  then show ?thesis
    by (simp only: P4EST_QUADRANT_LEN_def)
qed

lemma div_coarser:
  fixes u v :: int
  assumes "l \<le> m" and "u div P4EST_QUADRANT_LEN m = v div P4EST_QUADRANT_LEN m"
  shows "u div P4EST_QUADRANT_LEN l = v div P4EST_QUADRANT_LEN l"
proof -
  let ?d = "(2::int) ^ ((P4EST_MAXLEVEL - nat l) - (P4EST_MAXLEVEL - nat m))"
  have "u div P4EST_QUADRANT_LEN l = u div P4EST_QUADRANT_LEN m div ?d"
    unfolding QUADRANT_LEN_mult [OF assms(1)] using QUADRANT_LEN_pos [of m]
    by (simp add: zdiv_zmult2_eq)
  also have "\<dots> = v div P4EST_QUADRANT_LEN m div ?d" by (simp add: assms(2))
  also have "\<dots> = v div P4EST_QUADRANT_LEN l"
    unfolding QUADRANT_LEN_mult [OF assms(1)] using QUADRANT_LEN_pos [of m]
    by (simp add: zdiv_zmult2_eq)
  finally show ?thesis .
qed

lemma is_ancestor_trans:
  assumes "p4est_quadrant_is_ancestor a b" "p4est_quadrant_is_ancestor b c"
  shows "p4est_quadrant_is_ancestor a c"
proof -
  from assms have l: "q_level a < q_level b" "q_level b < q_level c"
    by (simp_all add: p4est_quadrant_is_ancestor_def)
  then have le: "q_level a \<le> q_level b" by simp
  from assms(2) have
    "q_x b div P4EST_QUADRANT_LEN (q_level b) = q_x c div P4EST_QUADRANT_LEN (q_level b)"
    "q_y b div P4EST_QUADRANT_LEN (q_level b) = q_y c div P4EST_QUADRANT_LEN (q_level b)"
    by (simp_all add: p4est_quadrant_is_ancestor_def)
  from div_coarser [OF le this(1)] div_coarser [OF le this(2)] assms(1) l
  show ?thesis by (simp add: p4est_quadrant_is_ancestor_def)
qed

lemma is_ancestor_equal_trans:
  assumes "p4est_quadrant_is_ancestor a b" "p4est_quadrant_is_equal b c"
  shows "p4est_quadrant_is_ancestor a c"
  using assms by (simp add: p4est_quadrant_is_ancestor_def p4est_quadrant_is_equal_def)

lemma is_equal_ancestor_trans:
  assumes "p4est_quadrant_is_equal a b" "p4est_quadrant_is_ancestor b c"
  shows "p4est_quadrant_is_ancestor a c"
  using assms by (simp add: p4est_quadrant_is_ancestor_def p4est_quadrant_is_equal_def)

lemma ancestors_comparable:
  assumes "p4est_quadrant_is_ancestor a c" "p4est_quadrant_is_ancestor b c"
    and "q_level a < q_level b"
  shows "p4est_quadrant_is_ancestor a b"
proof -
  from assms(3) have le: "q_level a \<le> q_level b" by simp
  from assms(2) have
    "q_x b div P4EST_QUADRANT_LEN (q_level b) = q_x c div P4EST_QUADRANT_LEN (q_level b)"
    "q_y b div P4EST_QUADRANT_LEN (q_level b) = q_y c div P4EST_QUADRANT_LEN (q_level b)"
    by (simp_all add: p4est_quadrant_is_ancestor_def)
  from div_coarser [OF le this(1)] div_coarser [OF le this(2)] assms(1,3)
  show ?thesis by (simp add: p4est_quadrant_is_ancestor_def)
qed

lemma aligned_div_eq:
  fixes u v L :: int
  assumes "0 < L" "u mod L = 0" "v mod L = 0" "u div L = v div L"
  shows "u = v"
proof -
  have "u = L * (u div L) + u mod L" by simp
  also have "\<dots> = L * (v div L) + v mod L" using assms by simp
  finally show ?thesis by simp
qed

lemma ancestors_same_level_equal:
  assumes "p4est_quadrant_is_ancestor a c" "p4est_quadrant_is_ancestor b c"
    and "q_level a = q_level b" "level_aligned a" "level_aligned b"
  shows "p4est_quadrant_is_equal a b"
proof -
  let ?L = "P4EST_QUADRANT_LEN (q_level a)"
  from assms have "q_x a div ?L = q_x b div ?L" "q_y a div ?L = q_y b div ?L"
    by (simp_all add: p4est_quadrant_is_ancestor_def)
  moreover from assms have "q_x a mod ?L = 0" "q_x b mod ?L = 0" "q_y a mod ?L = 0" "q_y b mod ?L = 0"
    by (simp_all add: level_aligned_def)
  ultimately have "q_x a = q_x b" "q_y a = q_y b"
    using aligned_div_eq [OF QUADRANT_LEN_pos, of "q_x a" "q_level a" "q_x b"]
      aligned_div_eq [OF QUADRANT_LEN_pos, of "q_y a" "q_level a" "q_y b"] by simp_all
  with assms(3) show ?thesis by (simp add: p4est_quadrant_is_equal_def)
qed

lemma ancestor_morton_le:
  assumes "level_aligned a" "p4est_quadrant_is_ancestor a b"
  shows "morton_index a \<le> morton_index b"
proof -
  define k where "k = P4EST_MAXLEVEL - nat (q_level a)"
  define n where "n = P4EST_MAXLEVEL + 2 - k"
  have nk: "P4EST_MAXLEVEL + 2 = n + k" by (simp add: n_def k_def)
  have L: "P4EST_QUADRANT_LEN (q_level a) = 2 ^ k" by (simp add: P4EST_QUADRANT_LEN_def k_def)
  from assms(1) have z: "q_x a mod 2 ^ k = 0" "q_y a mod 2 ^ k = 0"
    by (simp_all add: level_aligned_def L)
  from assms(2) have e: "q_x a div 2 ^ k = q_x b div 2 ^ k" "q_y a div 2 ^ k = q_y b div 2 ^ k"
    by (simp_all add: p4est_quadrant_is_ancestor_def L)
  have "morton_index a = 4 ^ k * morton n (q_x a div 2 ^ k) (q_y a div 2 ^ k)"
    unfolding morton_index_def nk morton_split by (simp add: morton_aligned_zero [OF z])
  moreover have "morton_index b = 4 ^ k * morton n (q_x a div 2 ^ k) (q_y a div 2 ^ k)
      + morton k (q_x b) (q_y b)"
    unfolding morton_index_def nk morton_split e by simp
  ultimately show ?thesis using morton_bounds [of k "q_x b" "q_y b"] by simp
qed

lemma ancestor_compare_neg:
  assumes "p4est_quadrant_is_extended a" "p4est_quadrant_is_extended b"
    and "p4est_quadrant_is_ancestor a b"
  shows "p4est_quadrant_compare a b < 0"
proof -
  from assms(1,2) have i: "p4est_quadrant_is_inside_3x3 a" "p4est_quadrant_is_inside_3x3 b"
    and al: "level_aligned a"
    by (simp_all add: p4est_quadrant_is_extended_def)
  from assms(3) have "q_level a < q_level b" by (simp add: p4est_quadrant_is_ancestor_def)
  with ancestor_morton_le [OF al assms(3)] show ?thesis
    unfolding compare_neg_iff [OF i] by linarith
qed

section \<open>p4est\_quadrant\_init\_data\<close>

text \<open>
  Claim C10.  \<^verbatim>\<open>p4est_quadrant_init_data\<close> takes a block from the user-data pool exactly
  when \<open>data_size\<close> is positive and sets the payload to NULL otherwise; it invokes the
  initializer exactly when the initializer is not NULL and the quadrant lies inside the
  root, so for a quadrant outside the root the initializer is not called although the
  payload is allocated.  Coordinates and level are not touched.
\<close>

theorem init_data_alloc_and_callback:
  assumes "p4est_quadrant_init_data p4 wt quad init_fn = (p4', quad')"
  shows "(0 < data_size p4 \<longrightarrow>
            user_data_pool p4' = user_data_pool p4 + 1 \<and> (\<exists>b. q_p quad' = user_data (Some b)))
       \<and> (data_size p4 = 0 \<longrightarrow>
            user_data_pool p4' = user_data_pool p4 \<and> q_p quad' = user_data None)
       \<and> (init_fn \<noteq> None \<and> p4est_quadrant_is_inside_root quad \<longrightarrow>
            (\<exists>qa. init_calls p4' = init_calls p4 @ [(wt, qa)] \<and> q_x qa = q_x quad
                 \<and> q_y qa = q_y quad \<and> q_level qa = q_level quad))
       \<and> (init_fn = None \<or> \<not> p4est_quadrant_is_inside_root quad \<longrightarrow>
            init_calls p4' = init_calls p4)
       \<and> q_x quad' = q_x quad \<and> q_y quad' = q_y quad \<and> q_level quad' = q_level quad"
  using assms
  by (cases init_fn)
     (auto simp: p4est_quadrant_init_data_def p4est_quadrant_is_inside_root_def Let_def
           split: if_splits)

text \<open>The theorem at an extended quadrant left of the root, with a payload of four
  bytes and an initializer: a block is taken from the pool and the initializer is not
  called.\<close>

theorem init_data_alloc_and_callback_witness:
  "(let p4 = ex_forest\<lparr>data_size := 4\<rparr>;
        quad = ex_quad (- 536870912) 0 1;
        (p4', quad') = p4est_quadrant_init_data p4 0 quad (Some (\<lambda>f t q. [1, 2, 3, 4]))
    in \<not> p4est_quadrant_is_inside_root quad
     \<and> user_data_pool p4' = user_data_pool p4 + 1
     \<and> (\<exists>b. q_p quad' = user_data (Some b))
     \<and> init_calls p4' = init_calls p4)"
proof -
  define p4 where "p4 = ex_forest\<lparr>data_size := 4\<rparr>"
  define quad where "quad = ex_quad (- 536870912) 0 1"
  obtain p4' quad' where
    r: "p4est_quadrant_init_data p4 0 quad (Some (\<lambda>f t q. [1, 2, 3, 4])) = (p4', quad')"
    by (metis surj_pair)
  have out: "\<not> p4est_quadrant_is_inside_root quad"
    by (simp add: quad_def ex_quad_def p4est_quadrant_is_inside_root_def)
  have ds: "0 < data_size p4" by (simp add: p4_def)
  from init_data_alloc_and_callback [OF r] out ds
  have "user_data_pool p4' = user_data_pool p4 + 1 \<and> (\<exists>b. q_p quad' = user_data (Some b))
      \<and> init_calls p4' = init_calls p4"
    by blast
  with out r show ?thesis by (simp add: p4_def [symmetric] quad_def [symmetric])
qed

section \<open>Correctness of p4est\_linearize\_tree\<close>

lemma count_level_Cons:
  "count_level (q # qs) l = (if q_level q = int l then 1 else 0) + count_level qs l"
  by (simp add: count_level_def)

lemma linearize_loop_result:
  assumes "linearize_loop p4 arr qpl current rest removed incount = (p4', arr', qpl', current', removed')"
    and "current < rest" "rest \<le> incount" "incount = length arr"
    and "\<forall>q\<in>set arr. 0 \<le> q_level q"
  shows "take (current' + 1) arr' = take current arr @ remove_ancestors (arr ! current # drop rest arr)
       \<and> int removed' + int (length (remove_ancestors (arr ! current # drop rest arr)))
           = int removed + int (incount - rest) + 1
       \<and> (\<forall>l. qpl' l + count_level (arr ! current # drop rest arr) l
              = qpl l + count_level (remove_ancestors (arr ! current # drop rest arr)) l)"
  using assms
proof (induction p4 arr qpl current rest removed incount rule: linearize_loop.induct)
  case (1 p4 arr qpl current rest removed incount)
  show ?case
  proof (cases "rest < incount")
    case False
    with "1.prems" have r: "rest = length arr" by simp
    from "1.prems"(1) False have "(p4', arr', qpl', current', removed') = (p4, arr, qpl, current, removed)"
      by (subst (asm) linearize_loop.simps) simp
    with "1.prems" r show ?thesis
      by (simp add: take_Suc_conv_app_nth)
  next
    case True
    define q1 where "q1 = arr ! current"
    define q2 where "q2 = arr ! rest"
    have dr: "drop rest arr = q2 # drop (rest + 1) arr"
      using True "1.prems" by (simp add: q2_def Cons_nth_drop_Suc)
    have cur: "current < length arr" using "1.prems" True by simp
    show ?thesis
    proof (cases "p4est_quadrant_is_equal q1 q2 \<or> p4est_quadrant_is_ancestor q1 q2")
      case rm: True
      define arr2 where "arr2 = arr[current := q2]"
      define qpl2 where "qpl2 = qpl(nat (q_level q1) := qpl (nat (q_level q1)) - 1)"
      have call: "linearize_loop (fst (p4est_quadrant_free_data p4 q1)) arr2 qpl2 current (rest + 1)
          (removed + 1) incount = (p4', arr', qpl', current', removed')"
        using "1.prems"(1) True rm
        by (subst (asm) linearize_loop.simps) (simp add: q1_def q2_def arr2_def qpl2_def Let_def)
      have set2: "\<forall>q\<in>set arr2. 0 \<le> q_level q"
      proof
        fix q assume "q \<in> set arr2"
        then have "q \<in> insert q2 (set arr)" unfolding arr2_def using set_update_subset_insert by fast
        moreover have "q2 \<in> set arr" using True "1.prems" by (simp add: q2_def)
        ultimately show "0 \<le> q_level q" using "1.prems"(5) by auto
      qed
      have IH: "take (current' + 1) arr' = take current arr2 @ remove_ancestors (arr2 ! current # drop (rest + 1) arr2)
       \<and> int removed' + int (length (remove_ancestors (arr2 ! current # drop (rest + 1) arr2)))
           = int (removed + 1) + int (incount - (rest + 1)) + 1
       \<and> (\<forall>l. qpl' l + count_level (arr2 ! current # drop (rest + 1) arr2) l
              = qpl2 l + count_level (remove_ancestors (arr2 ! current # drop (rest + 1) arr2)) l)"
      proof -
        have p1: "current < rest + 1" using "1.prems" by simp
        have p2: "rest + 1 \<le> incount" using True by simp
        have p3: "incount = length arr2" using "1.prems" by (simp add: arr2_def)
        show ?thesis
          by (rule "1.IH"(1) [OF True q1_def q2_def rm qpl2_def refl arr2_def call p1 p2 p3 set2])
      qed
      have a2: "arr2 ! current = q2" "take current arr2 = take current arr"
        "drop (rest + 1) arr2 = drop (rest + 1) arr"
        using cur "1.prems" by (simp_all add: arr2_def)
      have ra: "remove_ancestors (arr ! current # drop rest arr) = remove_ancestors (q2 # drop (rest + 1) arr)"
        using rm by (simp add: dr q1_def)
      have q1l: "0 \<le> q_level q1" using "1.prems"(5) cur by (simp add: q1_def)
      have hist: "qpl2 l + (if q_level q1 = int l then 1 else 0) = qpl l" for l
        using q1l by (auto simp: qpl2_def)
      have c1: "take (current' + 1) arr' = take current arr @ remove_ancestors (arr ! current # drop rest arr)"
        using IH unfolding a2 ra by blast
      have c2: "int removed' + int (length (remove_ancestors (arr ! current # drop rest arr)))
           = int removed + int (incount - rest) + 1"
        using IH True unfolding a2 ra by linarith
      have c3: "qpl' l + count_level (arr ! current # drop rest arr) l
              = qpl l + count_level (remove_ancestors (arr ! current # drop rest arr)) l" for l
      proof -
        from IH have "qpl' l + count_level (q2 # drop (rest + 1) arr) l
              = qpl2 l + count_level (remove_ancestors (q2 # drop (rest + 1) arr)) l"
          unfolding a2 by blast
        moreover have "remove_ancestors (q1 # q2 # drop (rest + 1) arr)
            = remove_ancestors (q2 # drop (rest + 1) arr)"
          using rm by simp
        ultimately show ?thesis using hist [of l]
          unfolding dr q1_def [symmetric]
          by (simp add: count_level_Cons del: remove_ancestors.simps)
      qed
      show ?thesis using c1 c2 c3 by blast
    next
      case keep: False
      define arr2 where "arr2 = (if current + 1 < rest then arr[current + 1 := q2] else arr)"
      have call: "linearize_loop p4 arr2 qpl (current + 1) (rest + 1) removed incount
          = (p4', arr', qpl', current', removed')"
        using "1.prems"(1) True keep
        by (subst (asm) linearize_loop.simps) (simp add: q1_def q2_def arr2_def Let_def split: if_splits)
      have set2: "\<forall>q\<in>set arr2. 0 \<le> q_level q"
      proof
        fix q assume "q \<in> set arr2"
        then have "q \<in> insert q2 (set arr)" unfolding arr2_def
          using set_update_subset_insert [of arr "current + 1" q2] by (auto split: if_splits)
        moreover have "q2 \<in> set arr" using True "1.prems" by (simp add: q2_def)
        ultimately show "0 \<le> q_level q" using "1.prems"(5) by auto
      qed
      have IH: "take (current' + 1) arr' = take (current + 1) arr2 @ remove_ancestors (arr2 ! (current + 1) # drop (rest + 1) arr2)
       \<and> int removed' + int (length (remove_ancestors (arr2 ! (current + 1) # drop (rest + 1) arr2)))
           = int removed + int (incount - (rest + 1)) + 1
       \<and> (\<forall>l. qpl' l + count_level (arr2 ! (current + 1) # drop (rest + 1) arr2) l
              = qpl l + count_level (remove_ancestors (arr2 ! (current + 1) # drop (rest + 1) arr2)) l)"
      proof -
        have p1: "current + 1 < rest + 1" using "1.prems" by simp
        have p2: "rest + 1 \<le> incount" using True by simp
        have p3: "incount = length arr2" using "1.prems" by (simp add: arr2_def)
        show ?thesis
          by (rule "1.IH"(2) [OF True q1_def q2_def keep refl arr2_def call p1 p2 p3 set2])
      qed
      have a2: "arr2 ! (current + 1) = q2" "take (current + 1) arr2 = take current arr @ [q1]"
        "drop (rest + 1) arr2 = drop (rest + 1) arr"
      proof -
        show "arr2 ! (current + 1) = q2"
        proof (cases "current + 1 < rest")
          case True
          then show ?thesis using \<open>rest < incount\<close> "1.prems" by (simp add: arr2_def)
        next
          case False
          with "1.prems" have "current + 1 = rest" by simp
          then show ?thesis using False by (simp add: arr2_def q2_def)
        qed
        show "take (current + 1) arr2 = take current arr @ [q1]"
          using cur by (simp add: arr2_def q1_def take_Suc_conv_app_nth)
        show "drop (rest + 1) arr2 = drop (rest + 1) arr"
          by (simp add: arr2_def)
      qed
      have ra: "remove_ancestors (arr ! current # drop rest arr) = q1 # remove_ancestors (q2 # drop (rest + 1) arr)"
        using keep by (simp add: dr q1_def)
      have c1: "take (current' + 1) arr' = take current arr @ remove_ancestors (arr ! current # drop rest arr)"
        using IH unfolding a2 ra by simp
      have c2: "int removed' + int (length (remove_ancestors (arr ! current # drop rest arr)))
           = int removed + int (incount - rest) + 1"
        using IH True unfolding a2 ra by simp
      have c3: "qpl' l + count_level (arr ! current # drop rest arr) l
              = qpl l + count_level (remove_ancestors (arr ! current # drop rest arr)) l" for l
      proof -
        from IH have "qpl' l + count_level (q2 # drop (rest + 1) arr) l
              = qpl l + count_level (remove_ancestors (q2 # drop (rest + 1) arr)) l"
          unfolding a2 by blast
        moreover have "remove_ancestors (q1 # q2 # drop (rest + 1) arr)
            = q1 # remove_ancestors (q2 # drop (rest + 1) arr)"
          using keep by simp
        ultimately show ?thesis
          unfolding dr q1_def [symmetric]
          by (simp add: count_level_Cons del: remove_ancestors.simps)
      qed
      show ?thesis using c1 c2 c3 by blast
    qed
  qed
qed

lemma remove_ancestors_nonempty: "remove_ancestors (q # qs) \<noteq> []"
  by (induction "q # qs" arbitrary: q qs rule: remove_ancestors.induct) auto

lemma remove_ancestors_subset: "set (remove_ancestors qs) \<subseteq> set qs"
  by (induction qs rule: remove_ancestors.induct) auto

lemma remove_ancestors_length: "length (remove_ancestors qs) \<le> length qs"
  by (induction qs rule: remove_ancestors.induct) auto

text \<open>the head of the result is the head of the input or a descendant of it\<close>
lemma remove_ancestors_hd:
  "hd (remove_ancestors (q # qs)) = q \<or> p4est_quadrant_is_equal q (hd (remove_ancestors (q # qs)))
     \<or> p4est_quadrant_is_ancestor q (hd (remove_ancestors (q # qs)))"
proof (induction "q # qs" arbitrary: q qs rule: remove_ancestors.induct)
  case (2 q)
  show ?case by simp
next
  case (3 q1 q2 qs)
  show ?case
  proof (cases "p4est_quadrant_is_equal q1 q2 \<or> p4est_quadrant_is_ancestor q1 q2")
    case False
    then show ?thesis by simp
  next
    case True
    let ?h = "hd (remove_ancestors (q2 # qs))"
    from "3.hyps"(1) [OF True] have
      "?h = q2 \<or> p4est_quadrant_is_equal q2 ?h \<or> p4est_quadrant_is_ancestor q2 ?h" .
    then consider "?h = q2" | "p4est_quadrant_is_equal q2 ?h" | "p4est_quadrant_is_ancestor q2 ?h"
      by blast
    then have "p4est_quadrant_is_equal q1 ?h \<or> p4est_quadrant_is_ancestor q1 ?h"
    proof cases
      case 1
      with True show ?thesis by simp
    next
      case 2
      from True show ?thesis
      proof
        assume "p4est_quadrant_is_equal q1 q2"
        with 2 show ?thesis by (simp add: p4est_quadrant_is_equal_def)
      next
        assume "p4est_quadrant_is_ancestor q1 q2"
        from is_ancestor_equal_trans [OF this 2] show ?thesis by simp
      qed
    next
      case 3
      from True show ?thesis
      proof
        assume "p4est_quadrant_is_equal q1 q2"
        from is_equal_ancestor_trans [OF this 3] show ?thesis by simp
      next
        assume "p4est_quadrant_is_ancestor q1 q2"
        from is_ancestor_trans [OF this 3] show ?thesis by simp
      qed
    qed
    with True show ?thesis by simp
  qed
qed

lemma sorted_linear_step:
  assumes e: "p4est_quadrant_is_extended q1" "p4est_quadrant_is_extended q2"
      "p4est_quadrant_is_extended h"
    and le: "p4est_quadrant_compare q1 q2 \<le> 0"
    and keep: "\<not> (p4est_quadrant_is_equal q1 q2 \<or> p4est_quadrant_is_ancestor q1 q2)"
    and h: "h = q2 \<or> p4est_quadrant_is_equal q2 h \<or> p4est_quadrant_is_ancestor q2 h"
  shows "p4est_quadrant_compare q1 h < 0 \<and> \<not> p4est_quadrant_is_ancestor q1 h"
proof -
  from e have i: "p4est_quadrant_is_inside_3x3 q1" "p4est_quadrant_is_inside_3x3 q2"
      "p4est_quadrant_is_inside_3x3 h"
    and al: "level_aligned q1" "level_aligned q2"
    by (simp_all add: p4est_quadrant_is_extended_def)
  from le keep have lt: "p4est_quadrant_compare q1 q2 < 0"
    using compare_zero_iff [of q1 q2] by linarith
  have q2h: "p4est_quadrant_compare q2 h \<le> 0"
  proof -
    from h consider "h = q2" | "p4est_quadrant_is_equal q2 h" | "p4est_quadrant_is_ancestor q2 h"
      by blast
    then show ?thesis
    proof cases
      case 1
      then show ?thesis by (simp add: p4est_quadrant_compare_def)
    next
      case 2
      then show ?thesis using compare_zero_iff [of q2 h] by simp
    next
      case 3
      then show ?thesis using ancestor_compare_neg [OF e(2,3)] by simp
    qed
  qed
  have c: "p4est_quadrant_compare q1 h < 0"
    by (rule compare_lt_le_trans [OF i lt q2h])
  have "\<not> p4est_quadrant_is_ancestor q1 h"
  proof
    assume a: "p4est_quadrant_is_ancestor q1 h"
    show False
    proof (cases "p4est_quadrant_is_ancestor q2 h")
      case True
      consider "q_level q1 < q_level q2" | "q_level q1 = q_level q2" | "q_level q2 < q_level q1"
        by linarith
      then show False
      proof cases
        case 1
        from ancestors_comparable [OF a True 1] keep show False by simp
      next
        case 2
        from ancestors_same_level_equal [OF a True 2 al] keep show False by simp
      next
        case 3
        from ancestors_comparable [OF True a 3] have "p4est_quadrant_is_ancestor q2 q1" .
        from ancestor_compare_neg [OF e(2,1) this] compare_antisym_neg [OF i(2,1)] le
        show False by simp
      qed
    next
      case False
      with h have "p4est_quadrant_is_equal q2 h"
        by (auto simp: p4est_quadrant_is_equal_def)
      with a have "p4est_quadrant_is_ancestor q1 q2"
        by (simp add: p4est_quadrant_is_ancestor_def p4est_quadrant_is_equal_def)
      with keep show False by simp
    qed
  qed
  with c show ?thesis by simp
qed

lemma is_sorted_from_Cons_iff:
  "is_sorted_from q (r # rs) \<longleftrightarrow> p4est_quadrant_compare q r < 0 \<and> is_sorted_from r rs"
  by auto

lemma is_linear_from_Cons_iff:
  "is_linear_from q (r # rs) \<longleftrightarrow>
     p4est_quadrant_compare q r < 0 \<and> \<not> p4est_quadrant_is_ancestor q r \<and> is_linear_from r rs"
  by auto

lemma remove_ancestors_sorted_linear:
  assumes "sc_array_is_sorted p4est_quadrant_compare (q # qs)"
    and "\<forall>r\<in>set (q # qs). p4est_quadrant_is_extended r"
  shows "is_linear_from (hd (remove_ancestors (q # qs))) (tl (remove_ancestors (q # qs)))"
  using assms
proof (induction "q # qs" arbitrary: q qs rule: remove_ancestors.induct)
  case (2 q)
  show ?case by simp
next
  case (3 q1 q2 qs)
  let ?R = "remove_ancestors (q2 # qs)"
  from "3.prems" have s2: "sc_array_is_sorted p4est_quadrant_compare (q2 # qs)"
    and e2: "\<forall>r\<in>set (q2 # qs). p4est_quadrant_is_extended r"
    and le: "p4est_quadrant_compare q1 q2 \<le> 0"
    by simp_all
  show ?case
  proof (cases "p4est_quadrant_is_equal q1 q2 \<or> p4est_quadrant_is_ancestor q1 q2")
    case True
    from "3.hyps"(1) [OF True s2 e2] True show ?thesis by simp
  next
    case False
    from "3.hyps"(2) [OF False s2 e2] have IH: "is_linear_from (hd ?R) (tl ?R)" .
    have ne: "?R \<noteq> []" by (rule remove_ancestors_nonempty)
    then have R: "?R = hd ?R # tl ?R" by simp
    have "hd ?R \<in> set ?R" using ne by (rule hd_in_set)
    then have "hd ?R \<in> set (q2 # qs)" using remove_ancestors_subset [of "q2 # qs"] by blast
    with e2 have eh: "p4est_quadrant_is_extended (hd ?R)" by blast
    from "3.prems"(2) have e: "p4est_quadrant_is_extended q1" "p4est_quadrant_is_extended q2"
      by simp_all
    from sorted_linear_step [OF e eh le False remove_ancestors_hd]
    have "p4est_quadrant_compare q1 (hd ?R) < 0 \<and> \<not> p4est_quadrant_is_ancestor q1 (hd ?R)" .
    with IH have "is_linear_from q1 (hd ?R # tl ?R)" by simp
    with R have "is_linear_from q1 ?R" by simp
    with False show ?thesis by simp
  qed
qed

lemma is_linear_imp_sorted: "is_linear_from q qs \<Longrightarrow> is_sorted_from q qs"
  by (induction q qs rule: is_linear_from.induct) (auto split: if_splits)

lemma foldl_maxlevel:
  fixes qpl :: "nat \<Rightarrow> int"
  shows "(foldl (\<lambda>m i. if qpl i > 0 then int i else m) m0 [0..<n] = m0 \<and> (\<forall>i<n. qpl i \<le> 0))
     \<or> (\<exists>i<n. foldl (\<lambda>m i. if qpl i > 0 then int i else m) m0 [0..<n] = int i \<and> qpl i > 0
            \<and> (\<forall>j. i < j \<and> j < n \<longrightarrow> qpl j \<le> 0))"
proof (induction n)
  case 0
  show ?case by simp
next
  case (Suc n)
  show ?case
  proof (cases "qpl n > 0")
    case True
    then have "\<exists>i<Suc n. foldl (\<lambda>m i. if qpl i > 0 then int i else m) m0 [0..<Suc n] = int i \<and> qpl i > 0
            \<and> (\<forall>j. i < j \<and> j < Suc n \<longrightarrow> qpl j \<le> 0)"
      by (intro exI [of _ n]) simp
    then show ?thesis by blast
  next
    case False
    from Suc.IH show ?thesis
    proof
      assume "foldl (\<lambda>m i. if qpl i > 0 then int i else m) m0 [0..<n] = m0 \<and> (\<forall>i<n. qpl i \<le> 0)"
      with False have "foldl (\<lambda>m i. if qpl i > 0 then int i else m) m0 [0..<Suc n] = m0
          \<and> (\<forall>i<Suc n. qpl i \<le> 0)"
        by (auto simp: less_Suc_eq)
      then show ?thesis by blast
    next
      assume "\<exists>i<n. foldl (\<lambda>m i. if qpl i > 0 then int i else m) m0 [0..<n] = int i \<and> qpl i > 0
            \<and> (\<forall>j. i < j \<and> j < n \<longrightarrow> qpl j \<le> 0)"
      then obtain i where i: "i < n" "foldl (\<lambda>m i. if qpl i > 0 then int i else m) m0 [0..<n] = int i"
          "qpl i > 0" "\<forall>j. i < j \<and> j < n \<longrightarrow> qpl j \<le> 0" by blast
      with False have "i < Suc n \<and> foldl (\<lambda>m i. if qpl i > 0 then int i else m) m0 [0..<Suc n] = int i \<and> qpl i > 0
            \<and> (\<forall>j. i < j \<and> j < Suc n \<longrightarrow> qpl j \<le> 0)"
        by (auto simp: less_Suc_eq)
      then show ?thesis by blast
    qed
  qed
qed

lemma count_level_pos_iff: "count_level qs l > 0 \<longleftrightarrow> (\<exists>q\<in>set qs. q_level q = int l)"
  by (auto simp: count_level_def filter_empty_conv)

lemma maxlevel_of_counts_correct:
  assumes "\<forall>q\<in>set qs. 0 \<le> q_level q \<and> q_level q \<le> int P4EST_QMAXLEVEL"
    and "\<forall>l\<le>P4EST_QMAXLEVEL. qpl l = count_level qs l"
  shows "maxlevel_of_counts qpl = Max (insert 0 (q_level ` set qs))"
proof -
  let ?S = "insert 0 (q_level ` set qs)"
  have fin: "finite ?S" by simp
  from foldl_maxlevel [of qpl 0 "Suc P4EST_QMAXLEVEL"]
  show ?thesis
  proof
    assume a: "foldl (\<lambda>m i. if qpl i > 0 then int i else m) 0 [0..<Suc P4EST_QMAXLEVEL] = 0
        \<and> (\<forall>i<Suc P4EST_QMAXLEVEL. qpl i \<le> 0)"
    have "\<forall>v\<in>?S. v \<le> 0"
    proof
      fix v assume "v \<in> ?S"
      then consider "v = 0" | q where "q \<in> set qs" "v = q_level q" by auto
      then show "v \<le> 0"
      proof cases
        case 1 then show ?thesis by simp
      next
        case 2
        with assms(1) have r: "0 \<le> v" "nat v < Suc P4EST_QMAXLEVEL" by auto
        with a have "qpl (nat v) \<le> 0" by blast
        moreover from r assms(2) have "qpl (nat v) = count_level qs (nat v)" by simp
        ultimately have "\<not> count_level qs (nat v) > 0" by simp
        then have "\<not> (\<exists>q\<in>set qs. q_level q = int (nat v))" unfolding count_level_pos_iff .
        with 2 r show ?thesis by auto
      qed
    qed
    then have "Max ?S \<le> 0" using fin by simp
    moreover have "0 \<le> Max ?S" using fin by simp
    ultimately have "Max ?S = 0" by linarith
    with a show ?thesis unfolding maxlevel_of_counts_def by presburger
  next
    assume "\<exists>i<Suc P4EST_QMAXLEVEL.
        foldl (\<lambda>m i. if qpl i > 0 then int i else m) 0 [0..<Suc P4EST_QMAXLEVEL] = int i \<and> qpl i > 0
        \<and> (\<forall>j. i < j \<and> j < Suc P4EST_QMAXLEVEL \<longrightarrow> qpl j \<le> 0)"
    then obtain i where i: "i < Suc P4EST_QMAXLEVEL"
        "foldl (\<lambda>m i. if qpl i > 0 then int i else m) 0 [0..<Suc P4EST_QMAXLEVEL] = int i"
        "qpl i > 0" "\<forall>j. i < j \<and> j < Suc P4EST_QMAXLEVEL \<longrightarrow> qpl j \<le> 0" by blast
    from i(1) assms(2) have "qpl i = count_level qs i" by simp
    with i(3) have "count_level qs i > 0" by simp
    then obtain q0 where "q0 \<in> set qs" "q_level q0 = int i"
      unfolding count_level_pos_iff by blast
    then have "int i \<in> q_level ` set qs" by (metis imageI)
    then have mem: "int i \<in> ?S" by simp
    have "\<forall>v\<in>?S. v \<le> int i"
    proof
      fix v assume "v \<in> ?S"
      then consider "v = 0" | q where "q \<in> set qs" "v = q_level q" by auto
      then show "v \<le> int i"
      proof cases
        case 1 then show ?thesis by simp
      next
        case 2
        with assms(1) have r: "0 \<le> v" "nat v < Suc P4EST_QMAXLEVEL" by auto
        from 2 r have "\<exists>q\<in>set qs. q_level q = int (nat v)" by auto
        then have "count_level qs (nat v) > 0" unfolding count_level_pos_iff .
        moreover from r assms(2) have "qpl (nat v) = count_level qs (nat v)" by simp
        ultimately have "qpl (nat v) > 0" by simp
        have "\<not> i < nat v"
        proof
          assume "i < nat v"
          with i(4) r(2) have "qpl (nat v) \<le> 0" by blast
          with \<open>qpl (nat v) > 0\<close> show False by simp
        qed
        with r show ?thesis by linarith
      qed
    qed
    with mem fin have "Max ?S = int i" by (intro Max_eqI) blast+
    with i(2) show ?thesis unfolding maxlevel_of_counts_def by presburger
  qed
qed

lemma morton_numeral [simp]:
  "morton (numeral k) a b = 4 * morton (pred_numeral k) (a div 2) (b div 2) + 2 * (b mod 2) + a mod 2"
  by (simp add: numeral_eq_Suc)

lemma ex_compare1: "p4est_quadrant_compare (ex_quad 0 0 0) (ex_quad 0 0 1) = -1"
  by (simp add: p4est_quadrant_compare_def ex_quad_def)

lemma ex_compare2: "p4est_quadrant_compare (ex_quad 0 0 1) (ex_quad 536870912 0 1) = -1"
  by (simp add: p4est_quadrant_compare_def ex_quad_def morton_index_def P4EST_MAXLEVEL_def)


text \<open>
  Claim C6.  For a tree whose leaf array is sorted (of extended quadrants, with a
  histogram whose entries \<open>0 .. P4EST_QMAXLEVEL\<close> count them), \<^verbatim>\<open>p4est_linearize_tree\<close>
  removes exactly the elements that equal their successor or are an ancestor of it; the
  array it leaves is sorted and linear; the value it returns is the number of quadrants
  removed; the entries \<open>0 .. P4EST_QMAXLEVEL\<close> of the histogram count the remaining
  leaves, the entries above (the \<open>-1\<close> that the library keeps at \<open>P4EST_MAXLEVEL\<close>) are
  left as they are, and \<^verbatim>\<open>maxlevel\<close> is the deepest level of the remaining leaves.  (With
  at most one leaf the function returns early and leaves \<^verbatim>\<open>maxlevel\<close> as it was.)
\<close>

theorem linearize_tree_correct:
  assumes srt: "sc_array_is_sorted p4est_quadrant_compare (quadrants t)"
    and ext: "\<forall>q\<in>set (quadrants t). p4est_quadrant_is_extended q"
    and hist: "\<forall>l\<le>P4EST_QMAXLEVEL. quadrants_per_level t l = count_level (quadrants t) l"
    and res: "p4est_linearize_tree p4 t = (p4', t', removed)"
  shows "quadrants t' = remove_ancestors (quadrants t)
       \<and> p4est_tree_is_sorted t' \<and> p4est_tree_is_linear t'
       \<and> length (quadrants t') + removed = length (quadrants t)
       \<and> (\<forall>l\<le>P4EST_QMAXLEVEL. quadrants_per_level t' l = count_level (quadrants t') l)
       \<and> (\<forall>l>P4EST_QMAXLEVEL. quadrants_per_level t' l = quadrants_per_level t l)
       \<and> (1 < length (quadrants t) \<or> maxlevel t = Max (insert 0 (q_level ` set (quadrants t)))
            \<longrightarrow> maxlevel t' = Max (insert 0 (q_level ` set (quadrants t'))))"
proof (cases "length (quadrants t) \<le> 1")
  case True
  with res have eq: "t' = t" "removed = 0" by (simp_all add: p4est_linearize_tree_def)
  from True have ra: "remove_ancestors (quadrants t) = quadrants t"
    by (cases "quadrants t" rule: remove_ancestors.cases) simp_all
  from True have "p4est_tree_is_sorted t" "p4est_tree_is_linear t"
    by (cases "quadrants t" rule: remove_ancestors.cases;
        simp add: p4est_tree_is_sorted_def p4est_tree_is_linear_def)+
  with True hist show ?thesis unfolding eq ra by simp
next
  case False
  then obtain q qs where qs: "quadrants t = q # qs" by (cases "quadrants t") auto
  obtain p4a arr qpl current rem where
    loop: "linearize_loop p4 (quadrants t) (quadrants_per_level t) 0 1 0 (length (quadrants t))
        = (p4a, arr, qpl, current, rem)"
    by (metis prod_cases5)
  with res False have t': "t' = t\<lparr>quadrants := take (current + 1) arr, quadrants_per_level := qpl,
        maxlevel := maxlevel_of_counts qpl\<rparr>" and rem: "removed = rem"
    by (simp_all add: p4est_linearize_tree_def Let_def)
  have lev: "\<forall>q\<in>set (quadrants t). 0 \<le> q_level q"
    using ext by (simp add: p4est_quadrant_is_extended_def level_aligned_def)
  have p1: "(0::nat) < 1" by simp
  have p2: "1 \<le> length (quadrants t)" using False by simp
  have X: "quadrants t ! 0 # drop 1 (quadrants t) = quadrants t" by (simp add: qs)
  note R = linearize_loop_result [OF loop p1 p2 refl lev, unfolded X]
  have r1: "take (current + 1) arr = remove_ancestors (quadrants t)"
    using R [THEN conjunct1] by simp
  have r2: "int rem + int (length (remove_ancestors (quadrants t))) = int (length (quadrants t))"
    using R [THEN conjunct2, THEN conjunct1] p2 by simp
  have r3: "\<forall>l. qpl l + count_level (quadrants t) l
        = quadrants_per_level t l + count_level (remove_ancestors (quadrants t)) l"
    using R [THEN conjunct2, THEN conjunct2] .
  let ?R = "remove_ancestors (quadrants t)"
  have q': "quadrants t' = ?R" using r1 by (simp add: t')
  have lin: "is_linear_from (hd ?R) (tl ?R)"
    using remove_ancestors_sorted_linear [of q qs] srt ext by (simp add: qs)
  have ne: "?R \<noteq> []" unfolding qs by (rule remove_ancestors_nonempty)
  then have R: "?R = hd ?R # tl ?R" by simp
  have linear: "p4est_tree_is_linear t'"
    unfolding p4est_tree_is_linear_def q' by (subst R) (simp add: lin)
  have sorted: "p4est_tree_is_sorted t'"
    unfolding p4est_tree_is_sorted_def q' by (subst R) (simp add: is_linear_imp_sorted [OF lin])
  have cnt: "length (quadrants t') + removed = length (quadrants t)"
    using r2 by (simp add: q' rem)
  have f': "quadrants_per_level t' = qpl" "maxlevel t' = maxlevel_of_counts qpl"
    by (simp_all add: t')
  have r4: "\<forall>l\<le>P4EST_QMAXLEVEL. qpl l = count_level ?R l"
  proof (intro allI impI)
    fix l assume "l \<le> P4EST_QMAXLEVEL"
    with hist have "quadrants_per_level t l = count_level (quadrants t) l" by simp
    with r3 [rule_format, of l] show "qpl l = count_level ?R l" by simp
  qed
  have h': "\<forall>l\<le>P4EST_QMAXLEVEL. quadrants_per_level t' l = count_level (quadrants t') l"
    unfolding f' q' by (rule r4)
  have top: "\<forall>q\<in>set (quadrants t). q_level q \<le> int P4EST_QMAXLEVEL"
    using ext by (simp add: p4est_quadrant_is_extended_def level_aligned_def)
  have above: "count_level qs' l = 0"
    if "set qs' \<subseteq> set (quadrants t)" "l > P4EST_QMAXLEVEL" for qs' l
  proof -
    have "\<not> count_level qs' l > 0"
      unfolding count_level_pos_iff using that top by fastforce
    moreover have "0 \<le> count_level qs' l" by (simp add: count_level_def)
    ultimately show ?thesis by simp
  qed
  have k': "\<forall>l>P4EST_QMAXLEVEL. quadrants_per_level t' l = quadrants_per_level t l"
  proof (intro allI impI)
    fix l assume l: "P4EST_QMAXLEVEL < l"
    from above [OF subset_refl l] above [OF remove_ancestors_subset l] r3 [rule_format, of l]
    show "quadrants_per_level t' l = quadrants_per_level t l" by (simp add: f')
  qed
  have "\<forall>r\<in>set ?R. 0 \<le> q_level r \<and> q_level r \<le> int P4EST_QMAXLEVEL"
    using remove_ancestors_subset [of "quadrants t"] ext
    by (auto simp: p4est_quadrant_is_extended_def level_aligned_def)
  from maxlevel_of_counts_correct [OF this r4]
  have "maxlevel t' = Max (insert 0 (q_level ` set (quadrants t')))"
    unfolding f' q' .
  with q' sorted linear cnt h' k' show ?thesis by blast
qed


text \<open>The theorem at a tree holding the root, its first child and its second child:
  the root is removed.\<close>

theorem linearize_tree_correct_witness:
  "(let t = ex_tree [ex_quad 0 0 0, ex_quad 0 0 1, ex_quad 536870912 0 1];
        (p4', t', removed) = p4est_linearize_tree ex_forest t
    in sc_array_is_sorted p4est_quadrant_compare (quadrants t)
     \<and> quadrants_per_level t 0 = 1 \<and> quadrants_per_level t 1 = 2
     \<and> quadrants_per_level t P4EST_MAXLEVEL = -1
     \<and> quadrants t' = [ex_quad 0 0 1, ex_quad 536870912 0 1]
     \<and> removed = 1
     \<and> p4est_tree_is_sorted t' \<and> p4est_tree_is_linear t'
     \<and> quadrants_per_level t' 0 = 0 \<and> quadrants_per_level t' 1 = 2
     \<and> quadrants_per_level t' P4EST_MAXLEVEL = -1
     \<and> maxlevel t' = 1)"
proof -
  define t where "t = ex_tree [ex_quad 0 0 0, ex_quad 0 0 1, ex_quad 536870912 0 1]"
  obtain p4' t' removed where res: "p4est_linearize_tree ex_forest t = (p4', t', removed)"
    by (metis prod_cases3)
  have srt: "sc_array_is_sorted p4est_quadrant_compare (quadrants t)"
    by (simp add: t_def ex_tree_def ex_compare1 ex_compare2)
  have ext: "\<forall>q\<in>set (quadrants t). p4est_quadrant_is_extended q"
    by (simp add: t_def ex_tree_def ex_quad_def p4est_quadrant_is_extended_def level_aligned_def
        p4est_quadrant_is_inside_3x3_def P4EST_QUADRANT_LEN_def P4EST_MAXLEVEL_def
        P4EST_QMAXLEVEL_def P4EST_ROOT_LEN_def)
  have hist: "\<forall>l\<le>P4EST_QMAXLEVEL. quadrants_per_level t l = count_level (quadrants t) l"
    by (simp add: t_def ex_tree_def ex_histogram_def)
  have h0: "quadrants_per_level t 0 = 1" "quadrants_per_level t 1 = 2"
    "quadrants_per_level t P4EST_MAXLEVEL = -1"
    by (simp_all add: t_def ex_tree_def ex_histogram_def count_level_def ex_quad_def
        P4EST_MAXLEVEL_def P4EST_QMAXLEVEL_def)
  have anc: "p4est_quadrant_is_ancestor (ex_quad 0 0 0) (ex_quad 0 0 1)"
    "\<not> p4est_quadrant_is_ancestor (ex_quad 0 0 1) (ex_quad 536870912 0 1)"
    "\<not> p4est_quadrant_is_equal (ex_quad 0 0 1) (ex_quad 536870912 0 1)"
    by (simp_all add: p4est_quadrant_is_ancestor_def p4est_quadrant_is_equal_def ex_quad_def
        P4EST_QUADRANT_LEN_def P4EST_MAXLEVEL_def)
  have ra: "remove_ancestors (quadrants t) = [ex_quad 0 0 1, ex_quad 536870912 0 1]"
    by (simp add: t_def ex_tree_def anc)
  have mx: "Max (insert 0 (q_level ` set [ex_quad 0 0 1, ex_quad 536870912 0 1])) = 1"
    by (simp add: ex_quad_def)
  have len: "1 < length (quadrants t)" by (simp add: t_def ex_tree_def)
  note T = linearize_tree_correct [OF srt ext hist res, unfolded ra]
  have q': "quadrants t' = [ex_quad 0 0 1, ex_quad 536870912 0 1]"
    using T by blast
  have "length (quadrants t') + removed = length (quadrants t)" using T by blast
  then have r: "removed = 1" unfolding q' by (simp add: t_def ex_tree_def)
  have "maxlevel t' = Max (insert 0 (q_level ` set (quadrants t')))" using T len by blast
  then have m: "maxlevel t' = 1" unfolding q' mx .
  have lo: "\<forall>l\<le>P4EST_QMAXLEVEL. quadrants_per_level t' l = count_level (quadrants t') l"
    and hi: "\<forall>l>P4EST_QMAXLEVEL. quadrants_per_level t' l = quadrants_per_level t l"
    using T by blast+
  have h1: "quadrants_per_level t' 0 = 0" "quadrants_per_level t' 1 = 2"
    using lo unfolding q' by (simp_all add: count_level_def ex_quad_def P4EST_QMAXLEVEL_def)
  have h2: "quadrants_per_level t' P4EST_MAXLEVEL = -1"
    using hi h0(3) by (simp add: P4EST_MAXLEVEL_def P4EST_QMAXLEVEL_def)
  have "quadrants t' = [ex_quad 0 0 1, ex_quad 536870912 0 1] \<and> removed = 1
     \<and> p4est_tree_is_sorted t' \<and> p4est_tree_is_linear t'
     \<and> quadrants_per_level t' 0 = 0 \<and> quadrants_per_level t' 1 = 2
     \<and> quadrants_per_level t' P4EST_MAXLEVEL = -1 \<and> maxlevel t' = 1"
    using T q' r m h1 h2 by blast
  with srt res h0 show ?thesis by (simp add: t_def [symmetric])
qed

section \<open>Correctness of p4est\_tree\_uniqify\_overlap\<close>


lemma piggy_le_iff:
  assumes "p4est_quadrant_is_inside_3x3 a" "p4est_quadrant_is_inside_3x3 b"
  shows "p4est_quadrant_compare_piggy a b \<le> 0 \<longleftrightarrow> piggy_key a \<le> piggy_key b"
  using compare_le_iff [OF assms]
  by (auto simp: p4est_quadrant_compare_piggy_def piggy_key_def Let_def)

lemma piggy_less_iff:
  assumes "p4est_quadrant_is_inside_3x3 a" "p4est_quadrant_is_inside_3x3 b"
  shows "p4est_quadrant_compare_piggy a b < 0 \<longleftrightarrow> piggy_key a < piggy_key b"
  using compare_neg_iff [OF assms]
  by (auto simp: p4est_quadrant_compare_piggy_def piggy_key_def Let_def)

lemma piggy_key_eq_iff:
  assumes "p4est_quadrant_is_inside_3x3 a" "p4est_quadrant_is_inside_3x3 b"
  shows "piggy_key a = piggy_key b \<longleftrightarrow> p4est_quadrant_is_equal_piggy a b"
  using morton_index_inj [OF assms]
  by (auto simp: piggy_key_def p4est_quadrant_is_equal_piggy_def morton_index_def)

lemma piggy_zero_iff:
  assumes "p4est_quadrant_is_inside_3x3 a" "p4est_quadrant_is_inside_3x3 b"
  shows "p4est_quadrant_compare_piggy a b = 0 \<longleftrightarrow> piggy_key a = piggy_key b"
proof -
  have "p4est_quadrant_compare_piggy a b = 0 \<longleftrightarrow>
      p4est_quadrant_compare_piggy a b \<le> 0 \<and> \<not> p4est_quadrant_compare_piggy a b < 0"
    by linarith
  then show ?thesis unfolding piggy_le_iff [OF assms] piggy_less_iff [OF assms] by auto
qed

lemma sc_insert_insort:
  assumes "p4est_quadrant_is_inside_3x3 a" "\<forall>b\<in>set bs. p4est_quadrant_is_inside_3x3 b"
  shows "sc_insert p4est_quadrant_compare_piggy a bs = insort_key piggy_key a bs"
  using assms by (induction bs) (simp_all add: piggy_le_iff)

lemma sc_array_sort_sort_key:
  assumes "\<forall>b\<in>set bs. p4est_quadrant_is_inside_3x3 b"
  shows "sc_array_sort p4est_quadrant_compare_piggy bs = sort_key piggy_key bs"
  using assms
proof (induction bs)
  case Nil
  show ?case by (simp add: sc_array_sort_def)
next
  case (Cons b bs)
  then have IH: "sc_array_sort p4est_quadrant_compare_piggy bs = sort_key piggy_key bs" by simp
  have "\<forall>c\<in>set (sort_key piggy_key bs). p4est_quadrant_is_inside_3x3 c"
    using Cons.prems by simp
  with Cons.prems have "sc_insert p4est_quadrant_compare_piggy b (sort_key piggy_key bs)
      = insort_key piggy_key b (sort_key piggy_key bs)"
    by (intro sc_insert_insort) simp_all
  with IH show ?case by (simp add: sc_array_sort_def)
qed

lemma sc_array_is_sorted_iff:
  assumes "\<forall>b\<in>set bs. p4est_quadrant_is_inside_3x3 b"
  shows "sc_array_is_sorted p4est_quadrant_compare_piggy bs \<longleftrightarrow> sorted (map piggy_key bs)"
  using assms
proof (induction bs rule: induct_list012)
  case (3 a b xs)
  then have IH: "sc_array_is_sorted p4est_quadrant_compare_piggy (b # xs) \<longleftrightarrow>
      sorted (map piggy_key (b # xs))" by simp
  from "3.prems" have le: "p4est_quadrant_compare_piggy a b \<le> 0 \<longleftrightarrow> piggy_key a \<le> piggy_key b"
    by (simp add: piggy_le_iff)
  show ?case
  proof
    assume "sc_array_is_sorted p4est_quadrant_compare_piggy (a # b # xs)"
    with IH le have "piggy_key a \<le> piggy_key b" "sorted (map piggy_key (b # xs))" by simp_all
    then show "sorted (map piggy_key (a # b # xs))" by (auto intro: order_trans)
  next
    assume "sorted (map piggy_key (a # b # xs))"
    with IH le show "sc_array_is_sorted p4est_quadrant_compare_piggy (a # b # xs)" by simp
  qed
qed simp_all

lemma bsearch_range_correct:
  assumes "sorted (map piggy_key arr)" "hi \<le> length arr"
    and "p4est_quadrant_is_inside_3x3 key" "\<forall>b\<in>set arr. p4est_quadrant_is_inside_3x3 b"
  shows "bsearch_range p4est_quadrant_compare_piggy key arr lo hi \<noteq> -1 \<longleftrightarrow>
      (\<exists>i. lo \<le> i \<and> i < hi \<and> piggy_key (arr ! i) = piggy_key key)"
  using assms
proof (induction p4est_quadrant_compare_piggy key arr lo hi rule: bsearch_range.induct)
  case (1 key arr lo hi)
  show ?case
  proof (cases "lo < hi")
    case False
    then show ?thesis by (subst bsearch_range.simps) simp
  next
    case True
    define mid where "mid = (lo + hi) div 2"
    define c where "c = p4est_quadrant_compare_piggy key (arr ! mid)"
    have m: "lo \<le> mid" "mid < hi" using True by (simp_all add: mid_def)
    then have ml: "mid < length arr" using "1.prems" by simp
    then have im: "p4est_quadrant_is_inside_3x3 (arr ! mid)" using "1.prems" by simp
    note ik = \<open>p4est_quadrant_is_inside_3x3 key\<close>
    have mono: "piggy_key (arr ! i) \<le> piggy_key (arr ! j)" if "i \<le> j" "j < length arr" for i j
      using "1.prems"(1) that by (simp add: sorted_iff_nth_mono)
    consider "c < 0" | "c > 0" | "c = 0" by linarith
    then show ?thesis
    proof cases
      case 1
      then have lt: "piggy_key key < piggy_key (arr ! mid)"
        using piggy_less_iff [OF ik im] by (simp add: c_def)
      have "bsearch_range p4est_quadrant_compare_piggy key arr lo hi
          = bsearch_range p4est_quadrant_compare_piggy key arr lo mid"
        using True 1 by (subst bsearch_range.simps) (simp add: mid_def c_def Let_def)
      also have "\<dots> \<noteq> -1 \<longleftrightarrow> (\<exists>i. lo \<le> i \<and> i < mid \<and> piggy_key (arr ! i) = piggy_key key)"
      proof (rule "1.hyps"(1) [OF True mid_def c_def 1 "1.prems"(1) _ "1.prems"(3,4)])
        show "mid \<le> length arr" using ml by simp
      qed
      also have "\<dots> \<longleftrightarrow> (\<exists>i. lo \<le> i \<and> i < hi \<and> piggy_key (arr ! i) = piggy_key key)"
      proof
        assume "\<exists>i. lo \<le> i \<and> i < mid \<and> piggy_key (arr ! i) = piggy_key key"
        then obtain i where "lo \<le> i" "i < mid" "piggy_key (arr ! i) = piggy_key key" by blast
        with m have "lo \<le> i \<and> i < hi \<and> piggy_key (arr ! i) = piggy_key key" by simp
        then show "\<exists>i. lo \<le> i \<and> i < hi \<and> piggy_key (arr ! i) = piggy_key key" ..
      next
        assume "\<exists>i. lo \<le> i \<and> i < hi \<and> piggy_key (arr ! i) = piggy_key key"
        then obtain i where i: "lo \<le> i" "i < hi" "piggy_key (arr ! i) = piggy_key key" by blast
        have "i < mid"
        proof (rule ccontr)
          assume "\<not> i < mid"
          then have "piggy_key (arr ! mid) \<le> piggy_key (arr ! i)"
            using mono [of mid i] i "1.prems" by simp
          with lt i show False by simp
        qed
        with i show "\<exists>i. lo \<le> i \<and> i < mid \<and> piggy_key (arr ! i) = piggy_key key" by blast
      qed
      finally show ?thesis .
    next
      case 2
      then have nl: "\<not> c < 0" by simp
      from 2 have "\<not> p4est_quadrant_compare_piggy key (arr ! mid) \<le> 0" by (simp add: c_def)
      then have gt: "piggy_key (arr ! mid) < piggy_key key"
        unfolding piggy_le_iff [OF ik im] by simp
      have "bsearch_range p4est_quadrant_compare_piggy key arr lo hi
          = bsearch_range p4est_quadrant_compare_piggy key arr (mid + 1) hi"
        using True 2 by (subst bsearch_range.simps) (simp add: mid_def c_def Let_def)
      also have "\<dots> \<noteq> -1 \<longleftrightarrow> (\<exists>i. mid + 1 \<le> i \<and> i < hi \<and> piggy_key (arr ! i) = piggy_key key)"
        by (rule "1.hyps"(2) [OF True mid_def c_def nl 2 "1.prems"])
      also have "\<dots> \<longleftrightarrow> (\<exists>i. lo \<le> i \<and> i < hi \<and> piggy_key (arr ! i) = piggy_key key)"
      proof
        assume "\<exists>i. mid + 1 \<le> i \<and> i < hi \<and> piggy_key (arr ! i) = piggy_key key"
        then obtain i where "mid + 1 \<le> i" "i < hi" "piggy_key (arr ! i) = piggy_key key" by blast
        with m have "lo \<le> i \<and> i < hi \<and> piggy_key (arr ! i) = piggy_key key" by simp
        then show "\<exists>i. lo \<le> i \<and> i < hi \<and> piggy_key (arr ! i) = piggy_key key" ..
      next
        assume "\<exists>i. lo \<le> i \<and> i < hi \<and> piggy_key (arr ! i) = piggy_key key"
        then obtain i where i: "lo \<le> i" "i < hi" "piggy_key (arr ! i) = piggy_key key" by blast
        have "mid + 1 \<le> i"
        proof (rule ccontr)
          assume "\<not> mid + 1 \<le> i"
          then have "piggy_key (arr ! i) \<le> piggy_key (arr ! mid)"
            using mono [of i mid] ml by simp
          with gt i show False by simp
        qed
        with i show "\<exists>i. mid + 1 \<le> i \<and> i < hi \<and> piggy_key (arr ! i) = piggy_key key" by blast
      qed
      finally show ?thesis .
    next
      case 3
      then have "piggy_key key = piggy_key (arr ! mid)"
        using piggy_zero_iff [OF ik im] by (simp add: c_def)
      moreover have "bsearch_range p4est_quadrant_compare_piggy key arr lo hi = int mid"
        using True 3 by (subst bsearch_range.simps) (simp add: mid_def c_def Let_def)
      ultimately have "bsearch_range p4est_quadrant_compare_piggy key arr lo hi \<noteq> -1"
        "lo \<le> mid \<and> mid < hi \<and> piggy_key (arr ! mid) = piggy_key key"
        using m by simp_all
      then show ?thesis by blast
    qed
  qed
qed

lemma sc_array_bsearch_correct:
  assumes "sc_array_is_sorted p4est_quadrant_compare_piggy skip"
    and "p4est_quadrant_is_inside_3x3 key" "\<forall>b\<in>set skip. p4est_quadrant_is_inside_3x3 b"
  shows "sc_array_bsearch skip key p4est_quadrant_compare_piggy \<noteq> -1 \<longleftrightarrow>
      (\<exists>s\<in>set skip. p4est_quadrant_is_equal_piggy s key)"
proof -
  from assms have srt: "sorted (map piggy_key skip)" by (simp add: sc_array_is_sorted_iff)
  have "sc_array_bsearch skip key p4est_quadrant_compare_piggy \<noteq> -1 \<longleftrightarrow>
      (\<exists>i. 0 \<le> i \<and> i < length skip \<and> piggy_key (skip ! i) = piggy_key key)"
    unfolding sc_array_bsearch_def
    by (rule bsearch_range_correct [OF srt le_refl assms(2,3)])
  also have "\<dots> \<longleftrightarrow> (\<exists>s\<in>set skip. piggy_key s = piggy_key key)"
    by (metis in_set_conv_nth le0)
  also have "\<dots> \<longleftrightarrow> (\<exists>s\<in>set skip. p4est_quadrant_is_equal_piggy s key)"
    using assms(2,3) by (auto simp: piggy_key_eq_iff)
  finally show ?thesis .
qed

lemma uniq_skip_Cons:
  "uniq_skip skip (a # rest) =
     (if rest \<noteq> [] \<and> p4est_quadrant_is_equal_piggy a (hd rest) then uniq_skip skip rest
      else if sc_array_bsearch skip a p4est_quadrant_compare_piggy \<noteq> -1 then uniq_skip skip rest
      else a # uniq_skip skip rest)"
  by (cases rest) simp_all

lemma uniqify_loop_result:
  assumes "uniqify_loop skip arr iz jz outcount = (arr', jz')"
    and "jz \<le> iz" "iz \<le> outcount" "outcount = length arr"
  shows "take jz' arr' = take jz arr @ uniq_skip skip (drop iz arr)"
  using assms
proof (induction skip arr iz jz outcount rule: uniqify_loop.induct)
  case (1 skip arr iz jz outcount)
  show ?case
  proof (cases "iz < outcount")
    case False
    with "1.prems" have "iz = length arr" by simp
    moreover from "1.prems"(1) False have "(arr', jz') = (arr, jz)"
      by (subst (asm) uniqify_loop.simps) simp
    ultimately show ?thesis by simp
  next
    case True
    define inq where "inq = arr ! iz"
    have dr: "drop iz arr = inq # drop (iz + 1) arr"
      using True "1.prems" by (simp add: inq_def Cons_nth_drop_Suc)
    have izl: "iz < length arr" using True "1.prems" by simp
    have hd_rest: "drop (iz + 1) arr \<noteq> [] \<and> p4est_quadrant_is_equal_piggy inq (hd (drop (iz + 1) arr))
        \<longleftrightarrow> iz < outcount - 1 \<and> p4est_quadrant_is_equal_piggy inq (arr ! (iz + 1))"
      using "1.prems" by (auto simp: hd_drop_conv_nth)
    let ?dup = "iz < outcount - 1 \<and> p4est_quadrant_is_equal_piggy inq (arr ! (iz + 1))"
    let ?skp = "sc_array_bsearch skip inq p4est_quadrant_compare_piggy \<noteq> -1"
    have p2: "iz + 1 \<le> outcount" using True by simp
    show ?thesis
    proof (cases ?dup)
      case dup: True
      have call: "uniqify_loop skip arr (iz + 1) jz outcount = (arr', jz')"
        using "1.prems"(1) True dup
        by (subst (asm) uniqify_loop.simps) (simp add: inq_def Let_def split: if_splits)
      have p1: "jz \<le> iz + 1" using "1.prems" by simp
      from "1.IH"(1) [OF True inq_def dup call p1 p2 "1.prems"(4)]
      have "take jz' arr' = take jz arr @ uniq_skip skip (drop (iz + 1) arr)" .
      moreover have "uniq_skip skip (drop iz arr) = uniq_skip skip (drop (iz + 1) arr)"
        unfolding dr uniq_skip_Cons hd_rest using dup by simp
      ultimately show ?thesis by simp
    next
      case nodup: False
      show ?thesis
      proof (cases ?skp)
        case skp: True
        have call: "uniqify_loop skip arr (iz + 1) jz outcount = (arr', jz')"
          using "1.prems"(1) True nodup skp
          by (subst (asm) uniqify_loop.simps) (simp add: inq_def Let_def split: if_splits)
        have p1: "jz \<le> iz + 1" using "1.prems" by simp
        from "1.IH"(2) [OF True inq_def nodup skp call p1 p2 "1.prems"(4)]
        have "take jz' arr' = take jz arr @ uniq_skip skip (drop (iz + 1) arr)" .
        moreover have "uniq_skip skip (drop iz arr) = uniq_skip skip (drop (iz + 1) arr)"
          unfolding dr uniq_skip_Cons hd_rest using nodup skp by simp
        ultimately show ?thesis by simp
      next
        case noskp: False
        define arr2 where "arr2 = (if iz > jz then arr[jz := inq] else arr)"
        have call: "uniqify_loop skip arr2 (iz + 1) (jz + 1) outcount = (arr', jz')"
          using "1.prems"(1) True nodup noskp
          by (subst (asm) uniqify_loop.simps) (simp add: inq_def Let_def arr2_def split: if_splits)
        have p1: "jz + 1 \<le> iz + 1" using "1.prems" by simp
        have p3: "outcount = length arr2" using "1.prems" by (simp add: arr2_def)
        from "1.IH"(3) [OF True inq_def nodup noskp call [unfolded arr2_def] p1 p2
            p3 [unfolded arr2_def]]
        have IH: "take jz' arr' = take (jz + 1) arr2 @ uniq_skip skip (drop (iz + 1) arr2)"
          unfolding arr2_def .
        have t: "take (jz + 1) arr2 = take jz arr @ [inq]"
        proof (cases "iz > jz")
          case True
          then show ?thesis using izl by (simp add: arr2_def take_Suc_conv_app_nth)
        next
          case False
          with "1.prems" have "jz = iz" by simp
          then show ?thesis using izl False by (simp add: arr2_def take_Suc_conv_app_nth inq_def)
        qed
        have d: "drop (iz + 1) arr2 = drop (iz + 1) arr"
          using "1.prems" by (simp add: arr2_def)
        have "uniq_skip skip (drop iz arr) = inq # uniq_skip skip (drop (iz + 1) arr)"
          unfolding dr uniq_skip_Cons hd_rest using nodup noskp by simp
        with IH t d show ?thesis by simp
      qed
    qed
  qed
qed

lemma uniq_skip_subset: "set (uniq_skip skip xs) \<subseteq> set xs"
  by (induction skip xs rule: uniq_skip.induct) auto

lemma uniq_skip_strict:
  assumes "sorted (map piggy_key xs)" "\<forall>q\<in>set xs. p4est_quadrant_is_inside_3x3 q"
  shows "sorted_wrt (\<lambda>a b. piggy_key a < piggy_key b) (uniq_skip skip xs)"
  using assms
proof (induction skip xs rule: uniq_skip.induct)
  case (3 skip a b bs)
  from "3.prems" have s: "sorted (map piggy_key (b # bs))"
    and i: "\<forall>q\<in>set (b # bs). p4est_quadrant_is_inside_3x3 q" by simp_all
  show ?case
  proof (cases "p4est_quadrant_is_equal_piggy a b")
    case True
    with "3.IH"(1) [OF True s i] show ?thesis by simp
  next
    case False
    show ?thesis
    proof (cases "sc_array_bsearch skip a p4est_quadrant_compare_piggy \<noteq> -1")
      case True
      with "3.IH"(2) [OF False True s i] False show ?thesis by simp
    next
      case nskp: False
      from "3.IH"(3) [OF False nskp s i]
      have IH: "sorted_wrt (\<lambda>a b. piggy_key a < piggy_key b) (uniq_skip skip (b # bs))" .
      from "3.prems" False have "piggy_key a \<noteq> piggy_key b"
        using piggy_key_eq_iff [of a b] by simp
      moreover from "3.prems" have "piggy_key a \<le> piggy_key b" by simp
      ultimately have ab: "piggy_key a < piggy_key b" by simp
      have "piggy_key a < piggy_key r" if "r \<in> set (uniq_skip skip (b # bs))" for r
      proof -
        from that uniq_skip_subset have "r \<in> set (b # bs)" by blast
        with s have "piggy_key b \<le> piggy_key r" by auto
        with ab show ?thesis by simp
      qed
      with IH False nskp show ?thesis by simp
    qed
  qed
qed simp_all

lemma uniq_skip_keys:
  assumes "sc_array_is_sorted p4est_quadrant_compare_piggy skip"
    and "\<forall>s\<in>set skip. p4est_quadrant_is_inside_3x3 s"
    and "\<forall>q\<in>set xs. p4est_quadrant_is_inside_3x3 q"
  shows "(\<exists>r\<in>set (uniq_skip skip xs). piggy_key r = k) \<longleftrightarrow>
      (\<exists>r\<in>set xs. piggy_key r = k) \<and> \<not> (\<exists>s\<in>set skip. piggy_key s = k)"
  using assms
proof (induction skip xs rule: uniq_skip.induct)
  case (1 skip)
  show ?case by simp
next
  case (2 skip a)
  have "sc_array_bsearch skip a p4est_quadrant_compare_piggy \<noteq> -1 \<longleftrightarrow>
      (\<exists>s\<in>set skip. piggy_key s = piggy_key a)"
    using sc_array_bsearch_correct [OF "2.prems"(1) _ "2.prems"(2), of a] "2.prems"
    by (auto simp: piggy_key_eq_iff)
  then show ?case by auto
next
  case (3 skip a b bs)
  from "3.prems" have i: "\<forall>q\<in>set (b # bs). p4est_quadrant_is_inside_3x3 q" by simp
  have bs: "sc_array_bsearch skip a p4est_quadrant_compare_piggy \<noteq> -1 \<longleftrightarrow>
      (\<exists>s\<in>set skip. piggy_key s = piggy_key a)"
    using sc_array_bsearch_correct [OF "3.prems"(1) _ "3.prems"(2), of a] "3.prems"
    by (auto simp: piggy_key_eq_iff)
  show ?case
  proof (cases "p4est_quadrant_is_equal_piggy a b")
    case True
    then have "piggy_key a = piggy_key b" using piggy_key_eq_iff [of a b] "3.prems" by simp
    with "3.IH"(1) [OF True "3.prems"(1,2) i] True show ?thesis by auto
  next
    case False
    show ?thesis
    proof (cases "sc_array_bsearch skip a p4est_quadrant_compare_piggy \<noteq> -1")
      case True
      with "3.IH"(2) [OF False True "3.prems"(1,2) i] False bs show ?thesis by auto
    next
      case nskp: False
      with "3.IH"(3) [OF False nskp "3.prems"(1,2) i] False bs show ?thesis by auto
    qed
  qed
qed

lemma sorted_wrt_piggy:
  assumes "sorted_wrt (\<lambda>a b. piggy_key a < piggy_key b) xs"
    and "\<forall>q\<in>set xs. p4est_quadrant_is_inside_3x3 q"
  shows "sorted_wrt (\<lambda>a b. p4est_quadrant_compare_piggy a b < 0) xs"
  using assms by (induction xs) (auto simp: piggy_less_iff)

lemma uniqify_overlap_eq:
  assumes "\<forall>q\<in>set out. p4est_quadrant_is_inside_3x3 q"
  shows "p4est_tree_uniqify_overlap skip out = uniq_skip skip (sort_key piggy_key out)"
proof (cases "out = []")
  case True
  then show ?thesis by (simp add: p4est_tree_uniqify_overlap_def)
next
  case False
  let ?s = "sc_array_sort p4est_quadrant_compare_piggy out"
  have s: "?s = sort_key piggy_key out" by (rule sc_array_sort_sort_key [OF assms])
  obtain arr jz where l: "uniqify_loop skip ?s 0 0 (length out) = (arr, jz)" by (metis surj_pair)
  have len: "length out = length ?s" by (simp add: s)
  from uniqify_loop_result [OF l le_refl _ len]
  have "take jz arr = uniq_skip skip ?s" by simp
  with l False show ?thesis by (simp add: p4est_tree_uniqify_overlap_def Let_def s)
qed

lemma ex_uniqify_value:
  "p4est_tree_uniqify_overlap ex_skip ex_overlap = [ex_piggy 0 0 0 1, ex_piggy 0 0 0 2]"
  by code_simp

lemma ex_overlap_extended: "\<forall>q\<in>set (ex_overlap @ ex_skip). p4est_quadrant_is_extended q"
  by code_simp

lemma ex_skip_sorted: "sc_array_is_sorted p4est_quadrant_compare_piggy ex_skip"
  by code_simp

text \<open>
  Claim C7.  For an overlap array \<open>out\<close> of extended quadrants and a sorted skip array,
  \<^verbatim>\<open>p4est_tree_uniqify_overlap\<close> leaves \<open>out\<close> strictly ascending in the order of
  \<^verbatim>\<open>p4est_quadrant_compare_piggy\<close>, that is, sorted by (which\_tree, coordinates, level)
  with no two equal entries; every entry left is an entry of the input; and an entry
  of the input has an equal entry left exactly when no entry of the skip list equals it.
\<close>

theorem uniqify_overlap_correct:
  assumes "\<forall>q\<in>set out. p4est_quadrant_is_extended q"
    and "\<forall>s\<in>set skip. p4est_quadrant_is_extended s"
    and "sc_array_is_sorted p4est_quadrant_compare_piggy skip"
  shows "sorted_wrt (\<lambda>a b. p4est_quadrant_compare_piggy a b < 0) (p4est_tree_uniqify_overlap skip out)
       \<and> set (p4est_tree_uniqify_overlap skip out) \<subseteq> set out
       \<and> (\<forall>q\<in>set out. (\<exists>r\<in>set (p4est_tree_uniqify_overlap skip out). p4est_quadrant_is_equal_piggy r q)
              \<longleftrightarrow> \<not> (\<exists>s\<in>set skip. p4est_quadrant_is_equal_piggy s q))"
proof -
  let ?res = "p4est_tree_uniqify_overlap skip out"
  let ?srt = "sort_key piggy_key out"
  from assms have io: "\<forall>q\<in>set out. p4est_quadrant_is_inside_3x3 q"
    and isk: "\<forall>s\<in>set skip. p4est_quadrant_is_inside_3x3 s"
    by (simp_all add: p4est_quadrant_is_extended_def)
  have eq: "?res = uniq_skip skip ?srt" by (rule uniqify_overlap_eq [OF io])
  have isr: "\<forall>q\<in>set ?srt. p4est_quadrant_is_inside_3x3 q" using io by simp
  have sub: "set ?res \<subseteq> set out" unfolding eq using uniq_skip_subset [of skip ?srt] by simp
  have "sorted_wrt (\<lambda>a b. piggy_key a < piggy_key b) ?res"
    unfolding eq by (rule uniq_skip_strict [OF _ isr]) simp
  moreover have ir: "\<forall>q\<in>set ?res. p4est_quadrant_is_inside_3x3 q" using sub io by blast
  ultimately have s: "sorted_wrt (\<lambda>a b. p4est_quadrant_compare_piggy a b < 0) ?res"
    by (rule sorted_wrt_piggy)
  have k: "(\<exists>r\<in>set ?res. p4est_quadrant_is_equal_piggy r q)
              \<longleftrightarrow> \<not> (\<exists>s\<in>set skip. p4est_quadrant_is_equal_piggy s q)" if q: "q \<in> set out" for q
  proof -
    from q io have iq: "p4est_quadrant_is_inside_3x3 q" by blast
    have "(\<exists>r\<in>set ?res. p4est_quadrant_is_equal_piggy r q) \<longleftrightarrow>
        (\<exists>r\<in>set ?res. piggy_key r = piggy_key q)"
      using ir iq by (auto simp: piggy_key_eq_iff)
    also have "\<dots> \<longleftrightarrow> (\<exists>r\<in>set ?srt. piggy_key r = piggy_key q)
        \<and> \<not> (\<exists>s\<in>set skip. piggy_key s = piggy_key q)"
      unfolding eq by (rule uniq_skip_keys [OF assms(3) isk isr])
    also have "\<dots> \<longleftrightarrow> \<not> (\<exists>s\<in>set skip. piggy_key s = piggy_key q)"
      using q by auto
    also have "\<dots> \<longleftrightarrow> \<not> (\<exists>s\<in>set skip. p4est_quadrant_is_equal_piggy s q)"
      using isk iq by (auto simp: piggy_key_eq_iff)
    finally show ?thesis .
  qed
  from s sub k show ?thesis by blast
qed

text \<open>The theorem at an array with three copies of one quadrant, an ancestor of it and
  two quadrants that the skip list holds.\<close>

theorem uniqify_overlap_correct_witness:
  "list_all p4est_quadrant_is_extended ex_overlap
   \<and> list_all p4est_quadrant_is_extended ex_skip
   \<and> sc_array_is_sorted p4est_quadrant_compare_piggy ex_skip
   \<and> p4est_tree_uniqify_overlap ex_skip ex_overlap = [ex_piggy 0 0 0 1, ex_piggy 0 0 0 2]
   \<and> sorted_wrt (\<lambda>a b. p4est_quadrant_compare_piggy a b < 0)
        (p4est_tree_uniqify_overlap ex_skip ex_overlap)
   \<and> set (p4est_tree_uniqify_overlap ex_skip ex_overlap) \<subseteq> set ex_overlap"
  using uniqify_overlap_correct [of ex_overlap ex_skip] ex_overlap_extended ex_skip_sorted
    ex_uniqify_value
  by (simp add: list_all_iff)

text \<open>
  Claim C9.  \<^verbatim>\<open>p4est_tree_uniqify_overlap\<close> removes only entries that equal another entry
  under the piggy comparison or that the skip list holds: every entry that the skip list
  does not hold has an equal entry in the result.  So when the array holds an ancestor
  and a strict descendant of it with the same tree tag (neither in the skip list), both
  survive; the branch that would drop the ancestor is compiled out.
\<close>

theorem uniqify_keeps_ancestor_pairs:
  assumes "\<forall>q\<in>set out. p4est_quadrant_is_extended q"
    and "\<forall>s\<in>set skip. p4est_quadrant_is_extended s"
    and "sc_array_is_sorted p4est_quadrant_compare_piggy skip"
  shows "(\<forall>q\<in>set out. \<not> (\<exists>s\<in>set skip. p4est_quadrant_is_equal_piggy s q) \<longrightarrow>
            (\<exists>r\<in>set (p4est_tree_uniqify_overlap skip out). p4est_quadrant_is_equal_piggy r q))
       \<and> (\<forall>a\<in>set out. \<forall>d\<in>set out.
            which_tree (q_p a) = which_tree (q_p d) \<and> p4est_quadrant_is_ancestor a d
            \<and> \<not> (\<exists>s\<in>set skip. p4est_quadrant_is_equal_piggy s a)
            \<and> \<not> (\<exists>s\<in>set skip. p4est_quadrant_is_equal_piggy s d) \<longrightarrow>
            (\<exists>a'\<in>set (p4est_tree_uniqify_overlap skip out).
             \<exists>d'\<in>set (p4est_tree_uniqify_overlap skip out).
               p4est_quadrant_is_equal_piggy a' a \<and> p4est_quadrant_is_equal_piggy d' d
               \<and> p4est_quadrant_is_ancestor a' d'))"
proof -
  let ?res = "p4est_tree_uniqify_overlap skip out"
  let ?srt = "sort_key piggy_key out"
  from assms have io: "\<forall>q\<in>set out. p4est_quadrant_is_inside_3x3 q"
    and isk: "\<forall>s\<in>set skip. p4est_quadrant_is_inside_3x3 s"
    by (simp_all add: p4est_quadrant_is_extended_def)
  have eq: "?res = uniq_skip skip ?srt" by (rule uniqify_overlap_eq [OF io])
  have isr: "\<forall>q\<in>set ?srt. p4est_quadrant_is_inside_3x3 q" using io by simp
  have ir: "\<forall>q\<in>set ?res. p4est_quadrant_is_inside_3x3 q"
    unfolding eq using uniq_skip_subset [of skip ?srt] io by auto
  have k: "\<exists>r\<in>set ?res. p4est_quadrant_is_equal_piggy r q"
    if q: "q \<in> set out" and n: "\<not> (\<exists>s\<in>set skip. p4est_quadrant_is_equal_piggy s q)" for q
  proof -
    from q io have iq: "p4est_quadrant_is_inside_3x3 q" by blast
    from n have "\<not> (\<exists>s\<in>set skip. piggy_key s = piggy_key q)"
      using isk iq by (auto simp: piggy_key_eq_iff)
    moreover have "\<exists>r\<in>set ?srt. piggy_key r = piggy_key q" using q by auto
    ultimately have "\<exists>r\<in>set ?res. piggy_key r = piggy_key q"
      unfolding eq uniq_skip_keys [OF assms(3) isk isr] by blast
    then show ?thesis using ir iq by (auto simp: piggy_key_eq_iff)
  qed
  have p: "\<exists>a'\<in>set ?res. \<exists>d'\<in>set ?res.
               p4est_quadrant_is_equal_piggy a' a \<and> p4est_quadrant_is_equal_piggy d' d
               \<and> p4est_quadrant_is_ancestor a' d'"
    if "a \<in> set out" "d \<in> set out" "p4est_quadrant_is_ancestor a d"
      "\<not> (\<exists>s\<in>set skip. p4est_quadrant_is_equal_piggy s a)"
      "\<not> (\<exists>s\<in>set skip. p4est_quadrant_is_equal_piggy s d)" for a d
  proof -
    from k [OF that(1,4)] obtain a' where a': "a' \<in> set ?res" "p4est_quadrant_is_equal_piggy a' a"
      by blast
    from k [OF that(2,5)] obtain d' where d': "d' \<in> set ?res" "p4est_quadrant_is_equal_piggy d' d"
      by blast
    from a'(2) d'(2) that(3) have "p4est_quadrant_is_ancestor a' d'"
      by (simp add: p4est_quadrant_is_equal_piggy_def p4est_quadrant_is_ancestor_def)
    with a' d' show ?thesis by blast
  qed
  from k p show ?thesis by blast
qed

text \<open>The theorem at the array above: the ancestor at level 1 and its descendant at
  level 2 are both in the result.\<close>

theorem uniqify_keeps_ancestor_pairs_witness:
  "ex_piggy 0 0 0 1 \<in> set ex_overlap \<and> ex_piggy 0 0 0 2 \<in> set ex_overlap
   \<and> p4est_quadrant_is_ancestor (ex_piggy 0 0 0 1) (ex_piggy 0 0 0 2)
   \<and> (\<exists>a'\<in>set (p4est_tree_uniqify_overlap ex_skip ex_overlap).
      \<exists>d'\<in>set (p4est_tree_uniqify_overlap ex_skip ex_overlap).
         p4est_quadrant_is_equal_piggy a' (ex_piggy 0 0 0 1)
         \<and> p4est_quadrant_is_equal_piggy d' (ex_piggy 0 0 0 2)
         \<and> p4est_quadrant_is_ancestor a' d')"
proof -
  have e: "\<forall>q\<in>set ex_overlap. p4est_quadrant_is_extended q"
    "\<forall>q\<in>set ex_skip. p4est_quadrant_is_extended q"
    using ex_overlap_extended by simp_all
  have m: "ex_piggy 0 0 0 1 \<in> set ex_overlap" "ex_piggy 0 0 0 2 \<in> set ex_overlap"
    by (simp_all add: ex_overlap_def)
  have a: "p4est_quadrant_is_ancestor (ex_piggy 0 0 0 1) (ex_piggy 0 0 0 2)"
    by (simp add: p4est_quadrant_is_ancestor_def ex_piggy_def)
  have w: "which_tree (q_p (ex_piggy 0 0 0 1)) = which_tree (q_p (ex_piggy 0 0 0 2))"
    by (simp add: ex_piggy_def)
  have n: "\<not> (\<exists>s\<in>set ex_skip. p4est_quadrant_is_equal_piggy s (ex_piggy 0 0 0 1))"
    "\<not> (\<exists>s\<in>set ex_skip. p4est_quadrant_is_equal_piggy s (ex_piggy 0 0 0 2))"
    by (simp_all add: ex_skip_def p4est_quadrant_is_equal_piggy_def ex_piggy_def)
  from uniqify_keeps_ancestor_pairs [OF e ex_skip_sorted, THEN conjunct2] m a w n
  have "\<exists>a'\<in>set (p4est_tree_uniqify_overlap ex_skip ex_overlap).
      \<exists>d'\<in>set (p4est_tree_uniqify_overlap ex_skip ex_overlap).
         p4est_quadrant_is_equal_piggy a' (ex_piggy 0 0 0 1)
         \<and> p4est_quadrant_is_equal_piggy d' (ex_piggy 0 0 0 2)
         \<and> p4est_quadrant_is_ancestor a' d'"
    by blast
  with m a show ?thesis by blast
qed

section \<open>Properties of p4est\_is\_valid\<close>

lemma foldl_sum: "foldl (\<lambda>t i. t + f i) (a::int) xs = a + sum_list (map f xs)"
  by (induction xs arbitrary: a) simp_all

lemma sync_flag_zero_iff:
  assumes "\<forall>p\<in>set ps. is_valid_checks p \<noteq> Abort"
  shows "p4est_comm_sync_flag_BOR (map (\<lambda>p. failed_flag (is_valid_checks p)) ps) = 0
     \<longleftrightarrow> (\<forall>p\<in>set ps. is_valid_checks p = Passed ())"
proof -
  have "failed_flag (is_valid_checks p) \<noteq> 0 \<longleftrightarrow> is_valid_checks p \<noteq> Passed ()"
    if "p \<in> set ps" for p
    using assms that by (cases "is_valid_checks p") (auto simp: failed_flag_def)
  then show ?thesis
    by (auto simp: p4est_comm_sync_flag_BOR_def list_ex_iff)
qed


lemma labels_table: "is_valid_labels = map fst validity_conditions"
  by (simp add: is_valid_labels_def validity_conditions_def)

lemma nquadrants_sum:
  "nquadrants_of_counts qpl = sum_list (map qpl [0..<Suc P4EST_QMAXLEVEL])"
  unfolding nquadrants_of_counts_def by (simp only: foldl_sum add_0)

lemma maxlevel_deepest: "maxlevel_of_counts qpl = deepest_level qpl"
proof -
  let ?S = "insert 0 (int ` {l. l \<le> P4EST_QMAXLEVEL \<and> 0 < qpl l})"
  have fin: "finite ?S" by simp
  from foldl_maxlevel [of qpl 0 "Suc P4EST_QMAXLEVEL"]
  show ?thesis
  proof
    assume a: "foldl (\<lambda>m i. if qpl i > 0 then int i else m) 0 [0..<Suc P4EST_QMAXLEVEL] = 0
        \<and> (\<forall>i<Suc P4EST_QMAXLEVEL. qpl i \<le> 0)"
    then have "{l. l \<le> P4EST_QMAXLEVEL \<and> 0 < qpl l} = {}" by (auto simp: less_Suc_eq_le)
    then have "?S = {0}" by (simp only: image_empty)
    then have "Max ?S = 0" by (simp only: Max_singleton)
    with a show ?thesis unfolding maxlevel_of_counts_def deepest_level_def by presburger
  next
    assume "\<exists>i<Suc P4EST_QMAXLEVEL.
        foldl (\<lambda>m i. if qpl i > 0 then int i else m) 0 [0..<Suc P4EST_QMAXLEVEL] = int i \<and> qpl i > 0
        \<and> (\<forall>j. i < j \<and> j < Suc P4EST_QMAXLEVEL \<longrightarrow> qpl j \<le> 0)"
    then obtain i where i: "i < Suc P4EST_QMAXLEVEL"
        "foldl (\<lambda>m i. if qpl i > 0 then int i else m) 0 [0..<Suc P4EST_QMAXLEVEL] = int i"
        "qpl i > 0" "\<forall>j. i < j \<and> j < Suc P4EST_QMAXLEVEL \<longrightarrow> qpl j \<le> 0" by blast
    have mem: "int i \<in> ?S" using i(1,3) by simp
    have "\<forall>v\<in>?S. v \<le> int i"
    proof
      fix v assume "v \<in> ?S"
      then consider "v = 0" | l where "v = int l" "l \<le> P4EST_QMAXLEVEL" "0 < qpl l" by auto
      then show "v \<le> int i"
      proof cases
        case 1 then show ?thesis by simp
      next
        case 2
        have "\<not> i < l"
        proof
          assume "i < l"
          with i(4) 2(2) have "qpl l \<le> 0" by (simp add: less_Suc_eq_le)
          with 2(3) show False by simp
        qed
        with 2(1) show ?thesis by simp
      qed
    qed
    with mem fin have "Max ?S = int i" by (intro Max_eqI) blast+
    with i(2) show ?thesis unfolding maxlevel_of_counts_def deepest_level_def by presburger
  qed
qed

text \<open>the check of the first tree\<close>

lemma check_first_tree_Passed:
  assumes "check_first_tree p4 = Passed ()"
  shows "range_A_ok p4 \<and> first_tree_ok p4 \<and> low_quadrant_ok p4"
  using assms
  by (auto simp: check_first_tree_def Let_def array_index_def range_A_ok_def first_tree_ok_def
        low_quadrant_ok_def my_position_def split: if_splits list.splits)

lemma check_first_tree_Failed:
  assumes "check_first_tree p4 = Failed l"
  shows "l = ''p4est invalid empty tree range A'' \<and> \<not> range_A_ok p4
       \<or> l = ''p4est invalid first tree'' \<and> \<not> first_tree_ok p4
       \<or> l = ''p4est invalid low quadrant'' \<and> \<not> low_quadrant_ok p4"
  using assms
  by (auto simp: check_first_tree_def Let_def array_index_def range_A_ok_def first_tree_ok_def
        low_quadrant_ok_def my_position_def split: if_splits list.splits)

text \<open>the check of the last tree\<close>

lemma check_last_tree_Passed:
  assumes "check_last_tree p4 = Passed ()"
  shows "range_B_ok p4 \<and> last_tree_ok p4 \<and> next_coordinates_ok p4 \<and> next_quadrant_ok p4
       \<and> last_quadrant_ok p4"
  using assms
  by (auto simp: check_last_tree_def Let_def array_index_def range_B_ok_def last_tree_ok_def
        next_coordinates_ok_def next_quadrant_ok_def last_quadrant_ok_def next_position_def
        next_tree_def position_quadrant_def split: if_splits)

lemma check_last_tree_Failed:
  assumes "check_last_tree p4 = Failed l"
  shows "l = ''p4est invalid empty tree range B'' \<and> \<not> range_B_ok p4
       \<or> l = ''p4est invalid last tree'' \<and> \<not> last_tree_ok p4
       \<or> l = ''p4est invalid next coordinates'' \<and> \<not> next_coordinates_ok p4
       \<or> l = ''p4est invalid next quadrant'' \<and> \<not> next_quadrant_ok p4
       \<or> l = ''p4est invalid last quadrant'' \<and> \<not> last_quadrant_ok p4"
  using assms
  by (auto simp: check_last_tree_def Let_def array_index_def range_B_ok_def last_tree_ok_def
        next_coordinates_ok_def next_quadrant_ok_def last_quadrant_ok_def next_position_def
        next_tree_def position_quadrant_def split: if_splits)

text \<open>the checks of one tree\<close>

lemma init_level [simp]: "q_level P4EST_QUADRANT_INIT = -1"
  by (simp add: P4EST_QUADRANT_INIT_def)

lemma check_tree_not_Abort: "check_tree p4 jt t lq \<noteq> Abort"
  by (simp add: check_tree_def Let_def)

lemma check_tree_eq:
  "check_tree p4 (int jt) (trees p4 ! jt) (quadrants_before p4 jt) =
     (if \<not> offset_ok p4 jt then Failed ''p4est invalid quadrants offset''
      else if \<not> complete_ok p4 jt then Failed ''p4est invalid not complete''
      else if \<not> inside_ok p4 jt then Failed ''p4est invalid outside count''
      else if \<not> first_desc_ok p4 jt then Failed ''p4est invalid first tree descendant''
      else if \<not> last_desc_ok p4 jt then Failed ''p4est invalid last tree descendant''
      else if \<not> empty_desc_ok p4 jt then Failed ''p4est invalid empty descendant''
      else if \<not> maxlevel_ok p4 jt then Failed ''p4est invalid wrong maxlevel''
      else if \<not> count_ok p4 jt then Failed ''p4est invalid tree quadrant count''
      else Passed (quadrants_before p4 jt + int (length (quadrants (trees p4 ! jt)))))"
proof (cases "quadrants (trees p4 ! jt) = []")
  case True
  then show ?thesis
    by (simp add: check_tree_def Let_def offset_ok_def complete_ok_def
        inside_ok_def first_desc_ok_def last_desc_ok_def empty_desc_ok_def maxlevel_ok_def
        count_ok_def maxlevel_deepest nquadrants_sum)
next
  case False
  then show ?thesis
    by (simp add: check_tree_def Let_def offset_ok_def complete_ok_def
        inside_ok_def first_desc_ok_def last_desc_ok_def empty_desc_ok_def maxlevel_ok_def
        count_ok_def maxlevel_deepest nquadrants_sum not_less not_le)
qed

lemma tree_conditions_mem:
  "(''p4est invalid quadrants offset'', offset_ok) \<in> set tree_conditions"
  "(''p4est invalid not complete'', complete_ok) \<in> set tree_conditions"
  "(''p4est invalid outside count'', inside_ok) \<in> set tree_conditions"
  "(''p4est invalid first tree descendant'', first_desc_ok) \<in> set tree_conditions"
  "(''p4est invalid last tree descendant'', last_desc_ok) \<in> set tree_conditions"
  "(''p4est invalid empty descendant'', empty_desc_ok) \<in> set tree_conditions"
  "(''p4est invalid wrong maxlevel'', maxlevel_ok) \<in> set tree_conditions"
  "(''p4est invalid tree quadrant count'', count_ok) \<in> set tree_conditions"
  unfolding tree_conditions_def by (simp_all only: list.set insert_iff simp_thms)

lemma tree_conditions_all:
  "(\<forall>(l, c)\<in>set tree_conditions. c p4 jt) \<longleftrightarrow>
     offset_ok p4 jt \<and> complete_ok p4 jt \<and> inside_ok p4 jt \<and> first_desc_ok p4 jt
     \<and> last_desc_ok p4 jt \<and> empty_desc_ok p4 jt \<and> maxlevel_ok p4 jt \<and> count_ok p4 jt"
  unfolding tree_conditions_def
  by (simp only: list.set ball_simps prod.case simp_thms conj_assoc)

lemma check_tree_Passed:
  assumes "check_tree p4 (int jt) (trees p4 ! jt) (quadrants_before p4 jt) = Passed lq'"
  shows "(\<forall>(l, c)\<in>set tree_conditions. c p4 jt)
       \<and> lq' = quadrants_before p4 jt + int (length (quadrants (trees p4 ! jt)))"
  using assms unfolding check_tree_eq tree_conditions_all
  by (simp split: if_splits)

lemma check_tree_Failed:
  assumes "check_tree p4 (int jt) (trees p4 ! jt) (quadrants_before p4 jt) = Failed l"
  shows "\<exists>c. (l, c) \<in> set tree_conditions \<and> \<not> c p4 jt"
proof -
  from assms consider
      "l = ''p4est invalid quadrants offset''" "\<not> offset_ok p4 jt"
    | "l = ''p4est invalid not complete''" "\<not> complete_ok p4 jt"
    | "l = ''p4est invalid outside count''" "\<not> inside_ok p4 jt"
    | "l = ''p4est invalid first tree descendant''" "\<not> first_desc_ok p4 jt"
    | "l = ''p4est invalid last tree descendant''" "\<not> last_desc_ok p4 jt"
    | "l = ''p4est invalid empty descendant''" "\<not> empty_desc_ok p4 jt"
    | "l = ''p4est invalid wrong maxlevel''" "\<not> maxlevel_ok p4 jt"
    | "l = ''p4est invalid tree quadrant count''" "\<not> count_ok p4 jt"
    unfolding check_tree_eq by (simp only: check.inject check.distinct split: if_splits) blast+
  then show ?thesis
    by cases (use tree_conditions_mem in blast)+
qed

lemma quadrants_before_Suc:
  "jt < length (trees p4) \<Longrightarrow>
     quadrants_before p4 (Suc jt) = quadrants_before p4 jt + int (length (quadrants (trees p4 ! jt)))"
  by (simp add: quadrants_before_def take_Suc_conv_app_nth)

lemma check_trees_not_Abort: "check_trees p4 jt ts lq \<noteq> Abort"
  by (induction p4 jt ts lq rule: check_trees.induct)
     (auto simp: check_tree_not_Abort split: check.splits)

lemma check_trees_result:
  assumes "jt \<le> length (trees p4)"
  shows "(check_trees p4 (int jt) (drop jt (trees p4)) (quadrants_before p4 jt) = Passed lq'
           \<longrightarrow> (\<forall>k. jt \<le> k \<and> k < length (trees p4) \<longrightarrow> (\<forall>(l, c)\<in>set tree_conditions. c p4 k))
               \<and> lq' = quadrants_before p4 (length (trees p4)))
       \<and> (check_trees p4 (int jt) (drop jt (trees p4)) (quadrants_before p4 jt) = Failed l
           \<longrightarrow> (\<exists>k c. jt \<le> k \<and> k < length (trees p4) \<and> (l, c) \<in> set tree_conditions \<and> \<not> c p4 k))"
  using assms
proof (induction "length (trees p4) - jt" arbitrary: jt)
  case 0
  then have "jt = length (trees p4)" by simp
  then show ?case by auto
next
  case (Suc n)
  then have jt: "jt < length (trees p4)" by simp
  have d: "drop jt (trees p4) = trees p4 ! jt # drop (Suc jt) (trees p4)"
    using jt by (simp add: Cons_nth_drop_Suc)
  have n: "n = length (trees p4) - Suc jt" using Suc.hyps(2) by simp
  have le: "Suc jt \<le> length (trees p4)" using jt by simp
  note IH = Suc.hyps(1) [OF n le]
  show ?case
  proof (cases "check_tree p4 (int jt) (trees p4 ! jt) (quadrants_before p4 jt)")
    case Abort
    then show ?thesis by (simp add: check_tree_not_Abort)
  next
    case (Failed l')
    from check_tree_Failed [OF Failed] obtain c where "(l', c) \<in> set tree_conditions" "\<not> c p4 jt"
      by blast
    then have "\<exists>k c. jt \<le> k \<and> k < length (trees p4) \<and> (l', c) \<in> set tree_conditions \<and> \<not> c p4 k"
      using jt by blast
    then show ?thesis unfolding d by (auto simp: Failed)
  next
    case (Passed lq1)
    note P = check_tree_Passed [OF Passed]
    have lq1: "lq1 = quadrants_before p4 (Suc jt)"
      using P quadrants_before_Suc [OF jt] by simp
    have e: "check_trees p4 (int jt) (drop jt (trees p4)) (quadrants_before p4 jt)
        = check_trees p4 (int (Suc jt)) (drop (Suc jt) (trees p4)) (quadrants_before p4 (Suc jt))"
      unfolding d by (simp add: Passed lq1 add.commute)
    show ?thesis unfolding e
    proof (intro conjI impI)
      assume a: "check_trees p4 (int (Suc jt)) (drop (Suc jt) (trees p4)) (quadrants_before p4 (Suc jt))
          = Passed lq'"
      note I = IH [THEN conjunct1, rule_format, OF a]
      show "\<forall>k. jt \<le> k \<and> k < length (trees p4) \<longrightarrow> (\<forall>(l, c)\<in>set tree_conditions. c p4 k)"
      proof (intro allI impI)
        fix k assume "jt \<le> k \<and> k < length (trees p4)"
        then consider "k = jt" | "Suc jt \<le> k \<and> k < length (trees p4)" by linarith
        then show "\<forall>(l, c)\<in>set tree_conditions. c p4 k"
        proof cases
          case 1
          then show ?thesis using P [THEN conjunct1] by simp
        next
          case 2
          then show ?thesis using I [THEN conjunct1, rule_format, of k] by simp
        qed
      qed
      show "lq' = quadrants_before p4 (length (trees p4))" by (rule I [THEN conjunct2])
    next
      assume a: "check_trees p4 (int (Suc jt)) (drop (Suc jt) (trees p4)) (quadrants_before p4 (Suc jt))
          = Failed l"
      from IH [THEN conjunct2, rule_format, OF a] obtain k c
        where kc: "Suc jt \<le> k" "k < length (trees p4)" "(l, c) \<in> set tree_conditions" "\<not> c p4 k"
        by blast
      from kc(1) have "jt \<le> k" by simp
      with kc(2,3,4) show "\<exists>k c. jt \<le> k \<and> k < length (trees p4) \<and> (l, c) \<in> set tree_conditions \<and> \<not> c p4 k"
        by (intro exI [of _ k] exI [of _ c]) simp
    qed
  qed
qed

lemma all_trees_table:
  "(\<forall>k<length (trees p4). \<forall>(l, c)\<in>set tree_conditions. c p4 k)
    \<longleftrightarrow> (\<forall>(l, c)\<in>set tree_conditions. all_trees c p4)"
  by (auto simp: all_trees_def)

lemma validity_conditions_mem:
  "(''p4est invalid empty tree range A'', range_A_ok) \<in> set validity_conditions"
  "(''p4est invalid first tree'', first_tree_ok) \<in> set validity_conditions"
  "(''p4est invalid low quadrant'', low_quadrant_ok) \<in> set validity_conditions"
  "(''p4est invalid empty tree range B'', range_B_ok) \<in> set validity_conditions"
  "(''p4est invalid last tree'', last_tree_ok) \<in> set validity_conditions"
  "(''p4est invalid next coordinates'', next_coordinates_ok) \<in> set validity_conditions"
  "(''p4est invalid next quadrant'', next_quadrant_ok) \<in> set validity_conditions"
  "(''p4est invalid last quadrant'', last_quadrant_ok) \<in> set validity_conditions"
  "(''p4est invalid quadrants offset'', all_trees offset_ok) \<in> set validity_conditions"
  "(''p4est invalid not complete'', all_trees complete_ok) \<in> set validity_conditions"
  "(''p4est invalid outside count'', all_trees inside_ok) \<in> set validity_conditions"
  "(''p4est invalid first tree descendant'', all_trees first_desc_ok) \<in> set validity_conditions"
  "(''p4est invalid last tree descendant'', all_trees last_desc_ok) \<in> set validity_conditions"
  "(''p4est invalid empty descendant'', all_trees empty_desc_ok) \<in> set validity_conditions"
  "(''p4est invalid wrong maxlevel'', all_trees maxlevel_ok) \<in> set validity_conditions"
  "(''p4est invalid tree quadrant count'', all_trees count_ok) \<in> set validity_conditions"
  "(''p4est invalid local quadrant count'', local_count_ok) \<in> set validity_conditions"
  "(''p4est invalid global quadrant index'', global_index_ok) \<in> set validity_conditions"
  unfolding validity_conditions_def by (simp_all only: list.set insert_iff simp_thms)

lemma process_valid_all:
  "process_valid p4 \<longleftrightarrow>
     range_A_ok p4 \<and> first_tree_ok p4 \<and> low_quadrant_ok p4 \<and> range_B_ok p4 \<and> last_tree_ok p4
     \<and> next_coordinates_ok p4 \<and> next_quadrant_ok p4 \<and> last_quadrant_ok p4
     \<and> all_trees offset_ok p4 \<and> all_trees complete_ok p4 \<and> all_trees inside_ok p4
     \<and> all_trees first_desc_ok p4 \<and> all_trees last_desc_ok p4 \<and> all_trees empty_desc_ok p4
     \<and> all_trees maxlevel_ok p4 \<and> all_trees count_ok p4
     \<and> local_count_ok p4 \<and> global_index_ok p4"
  unfolding process_valid_def validity_conditions_def
  by (simp only: list.set ball_simps prod.case simp_thms conj_assoc)

lemma tree_conditions_table:
  assumes "(l, c) \<in> set tree_conditions"
  shows "(l, all_trees c) \<in> set validity_conditions"
proof -
  from assms have "(l, c) = (''p4est invalid quadrants offset'', offset_ok)
      \<or> (l, c) = (''p4est invalid not complete'', complete_ok)
      \<or> (l, c) = (''p4est invalid outside count'', inside_ok)
      \<or> (l, c) = (''p4est invalid first tree descendant'', first_desc_ok)
      \<or> (l, c) = (''p4est invalid last tree descendant'', last_desc_ok)
      \<or> (l, c) = (''p4est invalid empty descendant'', empty_desc_ok)
      \<or> (l, c) = (''p4est invalid wrong maxlevel'', maxlevel_ok)
      \<or> (l, c) = (''p4est invalid tree quadrant count'', count_ok)"
    unfolding tree_conditions_def by (simp only: list.set insert_iff empty_iff simp_thms)
  then show ?thesis using validity_conditions_mem(9-16) by (elim disjE) (simp_all only: prod.inject)
qed

lemma check_counts_Passed:
  assumes "check_counts p4 (quadrants_before p4 (length (trees p4))) = Passed ()"
  shows "local_count_ok p4 \<and> global_index_ok p4"
  using assms
  by (auto simp: check_counts_def local_count_ok_def global_index_ok_def array_index_def
        split: if_splits option.splits)

lemma check_counts_Failed:
  assumes "check_counts p4 (quadrants_before p4 (length (trees p4))) = Failed l"
  shows "l = ''p4est invalid local quadrant count'' \<and> \<not> local_count_ok p4
       \<or> l = ''p4est invalid global quadrant index'' \<and> \<not> global_index_ok p4"
  using assms
  by (auto simp: check_counts_def local_count_ok_def global_index_ok_def array_index_def
        split: if_splits option.splits)

lemma quadrants_before_0 [simp]: "quadrants_before p4 0 = 0"
  by (simp add: quadrants_before_def)

lemma check_trees_and_counts_Passed:
  assumes "check_trees_and_counts p4 = Passed ()"
  shows "(\<forall>(l, c)\<in>set tree_conditions. all_trees c p4) \<and> local_count_ok p4 \<and> global_index_ok p4"
proof -
  from assms obtain lq where t: "check_trees p4 0 (trees p4) 0 = Passed lq"
    and c: "check_counts p4 lq = Passed ()"
    by (auto simp: check_trees_and_counts_def split: check.splits)
  from check_trees_result [of 0 p4 lq] t
  have a: "\<forall>k<length (trees p4). \<forall>(l, c)\<in>set tree_conditions. c p4 k"
    and lq: "lq = quadrants_before p4 (length (trees p4))" by simp_all
  from a all_trees_table have "\<forall>(l, c)\<in>set tree_conditions. all_trees c p4" by blast
  with check_counts_Passed c lq show ?thesis by blast
qed

lemma check_trees_and_counts_Failed:
  assumes "check_trees_and_counts p4 = Failed l"
  shows "\<exists>c. (l, c) \<in> set validity_conditions \<and> \<not> c p4"
proof (cases "check_trees p4 0 (trees p4) 0")
  case Abort
  then show ?thesis by (simp add: check_trees_not_Abort)
next
  case (Failed l')
  with assms have l: "l' = l" by (simp add: check_trees_and_counts_def)
  from check_trees_result [of 0 p4 _ l] Failed l
  obtain k c where "k < length (trees p4)" "(l, c) \<in> set tree_conditions" "\<not> c p4 k" by auto
  then have "(l, all_trees c) \<in> set validity_conditions" "\<not> all_trees c p4"
    using tree_conditions_table by (auto simp: all_trees_def)
  then show ?thesis by blast
next
  case (Passed lq)
  with assms have c: "check_counts p4 lq = Failed l" by (simp add: check_trees_and_counts_def)
  from check_trees_result [of 0 p4 lq] Passed
  have lq: "lq = quadrants_before p4 (length (trees p4))" by simp
  from check_counts_Failed c lq validity_conditions_mem(17,18) show ?thesis by blast
qed

lemma is_valid_checks_Passed:
  assumes "is_valid_checks p4 = Passed ()"
  shows "process_valid p4"
proof -
  from assms have a: "check_first_tree p4 = Passed ()" and b: "check_last_tree p4 = Passed ()"
    and c: "check_trees_and_counts p4 = Passed ()"
    by (auto simp: is_valid_checks_def split: check.splits)
  note A = check_first_tree_Passed [OF a] and B = check_last_tree_Passed [OF b]
    and C = check_trees_and_counts_Passed [OF c]
  have "\<forall>(l, c)\<in>set tree_conditions. all_trees c p4" using C by blast
  then have "all_trees offset_ok p4" "all_trees complete_ok p4" "all_trees inside_ok p4"
    "all_trees first_desc_ok p4" "all_trees last_desc_ok p4" "all_trees empty_desc_ok p4"
    "all_trees maxlevel_ok p4" "all_trees count_ok p4"
    using tree_conditions_mem by blast+
  with A B C show ?thesis unfolding process_valid_all by blast
qed

lemma is_valid_checks_Failed:
  assumes "is_valid_checks p4 = Failed l"
  shows "\<exists>c. (l, c) \<in> set validity_conditions \<and> \<not> c p4"
proof (cases "check_first_tree p4")
  case Abort
  with assms show ?thesis by (simp add: is_valid_checks_def)
next
  case (Failed l')
  with assms have "l' = l" by (simp add: is_valid_checks_def)
  with check_first_tree_Failed [OF Failed] validity_conditions_mem(1-3) show ?thesis by blast
next
  case a: (Passed u)
  show ?thesis
  proof (cases "check_last_tree p4")
    case Abort
    with assms a show ?thesis by (simp add: is_valid_checks_def)
  next
    case (Failed l')
    with assms a have "l' = l" by (simp add: is_valid_checks_def)
    with check_last_tree_Failed [OF Failed] validity_conditions_mem(4-8) show ?thesis by blast
  next
    case (Passed u')
    with assms a have "check_trees_and_counts p4 = Failed l" by (simp add: is_valid_checks_def)
    then show ?thesis by (rule check_trees_and_counts_Failed)
  qed
qed

lemma is_valid_checks_iff:
  assumes "is_valid_checks p4 \<noteq> Abort"
  shows "is_valid_checks p4 = Passed () \<longleftrightarrow> process_valid p4"
proof
  assume "is_valid_checks p4 = Passed ()"
  then show "process_valid p4" by (rule is_valid_checks_Passed)
next
  assume v: "process_valid p4"
  show "is_valid_checks p4 = Passed ()"
  proof (cases "is_valid_checks p4")
    case Abort
    with assms show ?thesis by simp
  next
    case (Failed l)
    from is_valid_checks_Failed [OF Failed] v show ?thesis by (auto simp: process_valid_def)
  next
    case (Passed u)
    then show ?thesis by simp
  qed
qed

lemma is_valid_labels_distinct: "distinct is_valid_labels"
  by (simp add: is_valid_labels_def)

text \<open>
  Claim C8.  When no process leaves its arrays, \<^verbatim>\<open>p4est_is_valid\<close> returns on every
  process the same value: true when every process satisfies every validity condition,
  false as soon as one condition is violated on one process (the negated disjunction of
  the failure flags).  The conditions are those of the specification: the encoding of an
  empty range, the first and the last tree, the low and the high quadrant, complete
  trees, \<open>quadrants_offset\<close>, \<open>maxlevel\<close>, the counts per level, \<open>local_num_quadrants\<close> and
  the ends of \<open>global_first_quadrant\<close>.  A process on which a condition is violated reports
  a failure, and the diagnostic label it logs names a condition that is violated on it; a
  process on which only one condition is violated logs the label of that condition.  The
  eighteen labels are pairwise distinct.
\<close>

theorem is_valid_detects_failures:
  assumes "\<forall>p\<in>set ps. is_valid_checks p \<noteq> Abort"
  shows "p4est_is_valid ps rank = Some (\<forall>p\<in>set ps. process_valid p)
       \<and> (\<forall>p\<in>set ps. \<forall>l c. (l, c) \<in> set validity_conditions \<and> \<not> c p \<longrightarrow>
             p4est_is_valid ps rank = Some False
             \<and> (\<exists>l' c'. is_valid_checks p = Failed l'
                   \<and> (l', c') \<in> set validity_conditions \<and> \<not> c' p))
       \<and> (\<forall>p\<in>set ps. \<forall>l c. (l, c) \<in> set validity_conditions \<and> \<not> c p
             \<and> (\<forall>(l', c')\<in>set validity_conditions. l' \<noteq> l \<longrightarrow> c' p) \<longrightarrow>
             is_valid_checks p = Failed l)
       \<and> (\<forall>p\<in>set ps. \<forall>l. is_valid_checks p = Failed l \<longrightarrow>
             p4est_is_valid ps rank = Some False
             \<and> (\<exists>c. (l, c) \<in> set validity_conditions \<and> \<not> c p))
       \<and> is_valid_labels = map fst validity_conditions \<and> distinct is_valid_labels
       \<and> (\<forall>rank'. p4est_is_valid ps rank' = p4est_is_valid ps rank)"
proof -
  have na: "\<not> list_ex (\<lambda>p. is_valid_checks p = Abort) ps"
    using assms by (simp add: list_ex_iff)
  have pv: "is_valid_checks p = Passed () \<longleftrightarrow> process_valid p" if "p \<in> set ps" for p
    using assms that by (intro is_valid_checks_iff) simp
  have v: "p4est_is_valid ps r = Some (\<forall>p\<in>set ps. process_valid p)" for r
    using na sync_flag_zero_iff [OF assms] pv by (simp add: p4est_is_valid_def)
  have f: "p4est_is_valid ps rank = Some False" if "p \<in> set ps" "\<not> process_valid p" for p
    using that v [of rank] by auto
  have d: "\<exists>l' c'. is_valid_checks p = Failed l' \<and> (l', c') \<in> set validity_conditions \<and> \<not> c' p"
    if p: "p \<in> set ps" and n: "\<not> process_valid p" for p
  proof (cases "is_valid_checks p")
    case Abort
    with assms p show ?thesis by simp
  next
    case (Failed l')
    with is_valid_checks_Failed [OF Failed] show ?thesis by blast
  next
    case (Passed u)
    with pv [OF p] n show ?thesis by simp
  qed
  have npv: "\<not> process_valid p" if "(l, c) \<in> set validity_conditions" "\<not> c p" for p l c
    using that by (auto simp: process_valid_def)
  have c2: "p4est_is_valid ps rank = Some False
             \<and> (\<exists>l' c'. is_valid_checks p = Failed l'
                   \<and> (l', c') \<in> set validity_conditions \<and> \<not> c' p)"
    if "p \<in> set ps" "(l, c) \<in> set validity_conditions \<and> \<not> c p" for p l c
    using f [OF that(1)] d [OF that(1)] npv that(2) by blast
  have c3: "is_valid_checks p = Failed l"
    if p: "p \<in> set ps" and h: "(l, c) \<in> set validity_conditions \<and> \<not> c p
             \<and> (\<forall>(l', c')\<in>set validity_conditions. l' \<noteq> l \<longrightarrow> c' p)" for p l c
  proof -
    from h npv have "\<not> process_valid p" by blast
    from d [OF p this] obtain l' c' where
      e: "is_valid_checks p = Failed l'" "(l', c') \<in> set validity_conditions" "\<not> c' p" by blast
    have "l' = l"
    proof (rule ccontr)
      assume "l' \<noteq> l"
      with h e(2) have "c' p" by blast
      with e(3) show False by simp
    qed
    with e(1) show ?thesis by simp
  qed
  have c4: "p4est_is_valid ps rank = Some False \<and> (\<exists>c. (l, c) \<in> set validity_conditions \<and> \<not> c p)"
    if p: "p \<in> set ps" and h: "is_valid_checks p = Failed l" for p l
  proof -
    from is_valid_checks_Failed [OF h] obtain c where c: "(l, c) \<in> set validity_conditions" "\<not> c p"
      by blast
    with f [OF p] npv show ?thesis by blast
  qed
  have s: "\<forall>rank'. p4est_is_valid ps rank' = p4est_is_valid ps rank" by (simp add: v)
  have C2: "\<forall>p\<in>set ps. \<forall>l c. (l, c) \<in> set validity_conditions \<and> \<not> c p \<longrightarrow>
             p4est_is_valid ps rank = Some False
             \<and> (\<exists>l' c'. is_valid_checks p = Failed l'
                   \<and> (l', c') \<in> set validity_conditions \<and> \<not> c' p)"
    using c2 by blast
  have C3: "\<forall>p\<in>set ps. \<forall>l c. (l, c) \<in> set validity_conditions \<and> \<not> c p
             \<and> (\<forall>(l', c')\<in>set validity_conditions. l' \<noteq> l \<longrightarrow> c' p) \<longrightarrow>
             is_valid_checks p = Failed l"
    using c3 by blast
  have C4: "\<forall>p\<in>set ps. \<forall>l. is_valid_checks p = Failed l \<longrightarrow>
             p4est_is_valid ps rank = Some False
             \<and> (\<exists>c. (l, c) \<in> set validity_conditions \<and> \<not> c p)"
    using c4 by blast
  show ?thesis
    by (intro conjI) (rule v C2 C3 C4 labels_table is_valid_labels_distinct s)+
qed

text \<open>The theorem at the example forest, on which every check passes, and at the same
  forest with a wrong \<open>local_num_quadrants\<close> on process 1; then a wrong
  \<open>quadrants_offset\<close>, a wrong \<open>maxlevel\<close>, an incomplete tree, wrong counts per level, a
  wrong first tree and a wrong start of \<open>global_first_quadrant\<close>, each with its label.\<close>

theorem is_valid_detects_failures_witness:
  "p4est_is_valid ex_partition 0 = Some True
   \<and> is_valid_checks (ex_bad_count ! 1) = Failed ''p4est invalid local quadrant count''
   \<and> \<not> local_count_ok (ex_bad_count ! 1)
   \<and> p4est_is_valid ex_bad_count 0 = Some False
   \<and> p4est_is_valid ex_bad_count 2 = Some False
   \<and> is_valid_checks (ex_with_tree (ex_partition ! 2) 1 (\<lambda>t. t\<lparr>quadrants_offset := 0\<rparr>))
        = Failed ''p4est invalid quadrants offset''
   \<and> is_valid_checks (ex_with_tree (ex_partition ! 0) 0 (\<lambda>t. t\<lparr>maxlevel := 2\<rparr>))
        = Failed ''p4est invalid wrong maxlevel''
   \<and> is_valid_checks (ex_with_tree (ex_partition ! 0) 0
          (\<lambda>t. t\<lparr>quadrants := [ex_leaf 0 0 2 10, ex_leaf 536870912 0 1 11]\<rparr>))
        = Failed ''p4est invalid not complete''
   \<and> is_valid_checks (ex_with_tree (ex_partition ! 0) 0
          (\<lambda>t. t\<lparr>quadrants_per_level := (\<lambda>l. if l = 1 then 3 else 0)\<rparr>))
        = Failed ''p4est invalid tree quadrant count''
   \<and> is_valid_checks ((ex_partition ! 1)\<lparr>first_local_tree := 1\<rparr>)
        = Failed ''p4est invalid first tree''
   \<and> is_valid_checks ((ex_partition ! 1)\<lparr>global_first_quadrant := [1, 2, 3, 5]\<rparr>)
        = Failed ''p4est invalid global quadrant index''"
proof -
  have ok: "list_all (\<lambda>p. is_valid_checks p = Passed ()) ex_partition" by code_simp
  then have a1: "\<forall>p\<in>set ex_partition. is_valid_checks p \<noteq> Abort" by (auto simp: list_all_iff)
  have a2: "\<forall>p\<in>set ex_bad_count. is_valid_checks p \<noteq> Abort" by code_simp
  have b: "is_valid_checks (ex_bad_count ! 1) = Failed ''p4est invalid local quadrant count''"
    by code_simp
  have m: "ex_bad_count ! 1 \<in> set ex_bad_count" by (simp add: ex_bad_count_def ex_partition_def)
  have pv: "\<forall>p\<in>set ex_partition. process_valid p"
    using ok is_valid_checks_Passed by (auto simp: list_all_iff)
  have t1: "p4est_is_valid ex_partition 0 = Some True"
    using is_valid_detects_failures [OF a1, of 0] pv by simp
  note T = is_valid_detects_failures [OF a2]
  have t2: "p4est_is_valid ex_bad_count 0 = Some False" "p4est_is_valid ex_bad_count 2 = Some False"
    using T [of 0] T [of 2] m b by blast+
  have "\<exists>c. (''p4est invalid local quadrant count'', c) \<in> set validity_conditions
      \<and> \<not> c (ex_bad_count ! 1)"
    using T [of 0] m b by blast
  then have t3: "\<not> local_count_ok (ex_bad_count ! 1)"
    unfolding validity_conditions_def
    by (simp only: list.set insert_iff empty_iff prod.inject) auto
  have e: "is_valid_checks (ex_with_tree (ex_partition ! 2) 1 (\<lambda>t. t\<lparr>quadrants_offset := 0\<rparr>))
        = Failed ''p4est invalid quadrants offset''"
    "is_valid_checks (ex_with_tree (ex_partition ! 0) 0 (\<lambda>t. t\<lparr>maxlevel := 2\<rparr>))
        = Failed ''p4est invalid wrong maxlevel''"
    "is_valid_checks (ex_with_tree (ex_partition ! 0) 0
          (\<lambda>t. t\<lparr>quadrants := [ex_leaf 0 0 2 10, ex_leaf 536870912 0 1 11]\<rparr>))
        = Failed ''p4est invalid not complete''"
    "is_valid_checks (ex_with_tree (ex_partition ! 0) 0
          (\<lambda>t. t\<lparr>quadrants_per_level := (\<lambda>l. if l = 1 then 3 else 0)\<rparr>))
        = Failed ''p4est invalid tree quadrant count''"
    "is_valid_checks ((ex_partition ! 1)\<lparr>first_local_tree := 1\<rparr>)
        = Failed ''p4est invalid first tree''"
    "is_valid_checks ((ex_partition ! 1)\<lparr>global_first_quadrant := [1, 2, 3, 5]\<rparr>)
        = Failed ''p4est invalid global quadrant index''"
    by code_simp+
  from t1 b t3 t2 e show ?thesis by blast
qed

section \<open>Empty processes after p4est\_partition\_given\<close>

lemma running_last_length [simp]: "length (running_last acc cs) = length cs"
  by (induction cs arbitrary: acc) simp_all

lemma running_last_nth:
  "i < length cs \<Longrightarrow> running_last acc cs ! i = acc + sum_list (take (Suc i) cs)"
proof (induction cs arbitrary: acc i)
  case Nil
  then show ?case by simp
next
  case (Cons c cs)
  then show ?case by (cases i) (simp_all add: algebra_simps)
qed

lemma new_last_nth:
  assumes "i < nat (mpisize p4)" "mpisize p4 \<le> int (length nc)"
  shows "new_global_last_quad_index p4 nc ! i = sum_list (take (Suc i) nc) - 1"
proof -
  have "i < length (take (nat (mpisize p4)) nc)" using assms by simp
  from running_last_nth [OF this, of "-1"] assms show ?thesis
    by (simp add: new_global_last_quad_index_def min_def)
qed

lemma new_last_step:
  assumes "Suc i < nat (mpisize p4)" "mpisize p4 \<le> int (length nc)"
  shows "new_global_last_quad_index p4 nc ! Suc i = new_global_last_quad_index p4 nc ! i + nc ! Suc i"
proof -
  have "Suc i < length nc" using assms by linarith
  then have "take (Suc (Suc i)) nc = take (Suc i) nc @ [nc ! Suc i]"
    by (simp add: take_Suc_conv_app_nth)
  then show ?thesis using assms by (simp add: new_last_nth)
qed

lemma new_last_0:
  assumes "0 < nat (mpisize p4)" "mpisize p4 \<le> int (length nc)"
  shows "new_global_last_quad_index p4 nc ! 0 = nc ! 0 - 1"
proof -
  have "0 < length nc" using assms by linarith
  then have "take (Suc 0) nc = [nc ! 0]" by (cases nc) simp_all
  then show ?thesis using new_last_nth [OF assms] by simp
qed

lemma foldl_unchanged: "(\<And>s x. x \<in> set xs \<Longrightarrow> f s x = s) \<Longrightarrow> foldl f s xs = s"
  by (induction xs arbitrary: s) simp_all

lemma num_recv_from_empty:
  assumes r: "0 \<le> mpirank p4" "mpirank p4 < mpisize p4" "mpisize p4 \<le> int (length nc)"
    and z: "nc ! nat (mpirank p4) = 0"
    and f: "from_proc < nat (mpisize p4)"
  shows "num_recv_from p4 nc ! from_proc \<le> 0"
proof -
  let ?N = "new_global_last_quad_index p4 nc"
  let ?r = "nat (mpirank p4)"
  define my_begin where "my_begin = (if ?r = 0 then 0 else ?N ! (?r - 1) + 1)"
  define my_end where "my_end = ?N ! ?r"
  have rl: "?r < nat (mpisize p4)" using r by simp
  have "my_end = my_begin - 1"
  proof (cases "?r")
    case 0
    with new_last_0 [of p4 nc] r z show ?thesis by (simp add: my_begin_def my_end_def)
  next
    case (Suc k)
    with new_last_step [of k p4 nc] rl r z show ?thesis by (simp add: my_begin_def my_end_def)
  qed
  then have "min my_end e - max my_begin b + 1 \<le> 0" for e b by simp
  then show ?thesis
    using f by (simp add: num_recv_from_def Let_def my_begin_def my_end_def)
qed

lemma count_received_empty:
  assumes r: "0 \<le> mpirank p4" "mpirank p4 < mpisize p4" "mpisize p4 \<le> int (length nc)"
    and z: "nc ! nat (mpirank p4) = 0"
  shows "new_first_local_tree (count_received p4 nc recv) = -1
       \<and> new_last_local_tree (count_received p4 nc recv) = -2"
proof -
  let ?body = "\<lambda>c from_proc.
                 if num_recv_from p4 nc ! from_proc > 0 then
                   (let (first_from_tree, num_recv_trees) = from_trees p4 from_proc;
                        npt = num_per_tree_recv_buf p4 nc recv from_proc
                    in foldl (\<lambda>c it.
                         if npt ! it > 0 then
                           (let from_tree = first_from_tree + int it in
                            c\<lparr>new_first_local_tree := min (new_first_local_tree c) from_tree,
                              new_last_local_tree := max (new_last_local_tree c) from_tree,
                              new_local_tree_elem_count :=
                                (new_local_tree_elem_count c)[nat from_tree :=
                                   new_local_tree_elem_count c ! nat from_tree + npt ! it],
                              new_local_tree_elem_count_before :=
                                (new_local_tree_elem_count_before c)[nat from_tree :=
                                   new_local_tree_elem_count_before c ! nat from_tree
                                   + (if from_proc < nat (mpirank p4) then npt ! it else 0)]\<rparr>)
                         else c)
                       c [0..<nat num_recv_trees])
                 else c"
  let ?init = "\<lparr>new_first_local_tree = P4EST_TOPIDX_MAX, new_last_local_tree = 0,
                new_local_tree_elem_count = replicate (length (trees p4)) 0,
                new_local_tree_elem_count_before = replicate (length (trees p4)) 0\<rparr>"
  have "foldl ?body ?init [0..<nat (mpisize p4)] = ?init"
  proof (rule foldl_unchanged)
    fix s :: recv_counts and x assume "x \<in> set [0..<nat (mpisize p4)]"
    then have "x < nat (mpisize p4)" by simp
    from num_recv_from_empty [OF r z this] show "?body s x = s" by simp
  qed
  then show ?thesis
    by (simp add: count_received_def Let_def P4EST_TOPIDX_MAX_def)
qed

lemma partition_local_empty:
  assumes r: "0 \<le> mpirank p4" "mpirank p4 < mpisize p4" "mpisize p4 \<le> int (length nc)"
    and z: "nc ! nat (mpirank p4) = 0"
  shows "first_local_tree (partition_given_local p4 nc recv) = -1
       \<and> last_local_tree (partition_given_local p4 nc recv) = -2"
  using count_received_empty [OF assms, of recv]
  by (simp add: partition_given_local_def Let_def split: prod.splits)

lemma negative_first_reported:
  assumes "first_local_tree q < 0" "\<not> (first_local_tree q = -1 \<and> last_local_tree q = -2)"
  shows "is_valid_checks q = Failed ''p4est invalid empty tree range A''"
proof -
  from assms have "check_first_tree q = Failed ''p4est invalid empty tree range A''"
    by (auto simp: check_first_tree_def Let_def)
  then show ?thesis by (simp add: is_valid_checks_def)
qed

lemma negative_last_reported:
  assumes "0 \<le> first_local_tree q" "last_local_tree q < 0"
  shows "is_valid_checks q =
      (case check_first_tree q of
         Abort \<Rightarrow> Abort
       | Failed l \<Rightarrow> Failed l
       | Passed u \<Rightarrow> Failed ''p4est invalid empty tree range B'')"
proof -
  from assms have "check_last_tree q = Failed ''p4est invalid empty tree range B''"
    by (auto simp: check_last_tree_def Let_def)
  then show ?thesis by (cases "check_first_tree q") (simp_all add: is_valid_checks_def)
qed

lemma check_first_tree_in_bounds:
  assumes "0 \<le> mpirank q" "mpirank q < int (length (global_first_position q))"
    and "first_local_tree q < int (length (trees q))"
  shows "check_first_tree q \<noteq> Abort"
  using assms
  by (auto simp: check_first_tree_def Let_def array_index_def split: list.splits)

lemma failed_process_invalid:
  assumes "q \<in> set ps" "is_valid_checks q = Failed l"
    and "\<forall>p\<in>set ps. is_valid_checks p \<noteq> Abort"
  shows "p4est_is_valid ps rank = Some False"
proof -
  have "\<not> list_ex (\<lambda>p. is_valid_checks p = Abort) ps"
    using assms(3) by (simp add: list_ex_iff)
  moreover have "failed_flag (is_valid_checks q) \<noteq> 0" using assms(2) by (simp add: failed_flag_def)
  then have "list_ex (\<lambda>f. f \<noteq> 0) (map (\<lambda>p. failed_flag (is_valid_checks p)) ps)"
    using assms(1) by (auto simp: list_ex_iff)
  ultimately show ?thesis by (simp add: p4est_is_valid_def p4est_comm_sync_flag_BOR_def)
qed

text \<open>
  Claim C5.  After \<^verbatim>\<open>p4est_partition_given\<close>, a process whose new count is zero has
  \<open>first_local_tree = -1\<close> and \<open>last_local_tree = -2\<close>.  \<^verbatim>\<open>p4est_is_valid\<close> accepts this
  encoding: its two range checks pass and the outcome is that of the remaining checks.
  Every other tree range with a negative end is reported as a failure: a negative
  \<open>first_local_tree\<close> gives the diagnostic ``empty tree range A''; with
  \<open>first_local_tree \<ge> 0\<close> and a negative \<open>last_local_tree\<close> the process reports a failure
  of the check of its first tree or the diagnostic ``empty tree range B'', provided
  the arrays hold the entries that the check of the first tree reads (the entry of the
  rank in \<open>global_first_position\<close> and the tree \<open>first_local_tree\<close>); and then
  \<^verbatim>\<open>p4est_is_valid\<close> returns false on every process, when no process leaves its arrays.
\<close>

theorem empty_partition_encoding:
  assumes "rank < length ps"
    and "mpirank (ps ! rank) = int rank" "int rank < mpisize (ps ! rank)"
    and "mpisize (ps ! rank) \<le> int (length nc)"
    and "nc ! rank = 0"
  shows "first_local_tree (fst (p4est_partition_given ps nc) ! rank) = -1
       \<and> last_local_tree (fst (p4est_partition_given ps nc) ! rank) = -2
       \<and> (\<forall>q. first_local_tree q = -1 \<and> last_local_tree q = -2 \<longrightarrow>
              is_valid_checks q = check_trees_and_counts q)
       \<and> (\<forall>q. first_local_tree q < 0 \<and> \<not> (first_local_tree q = -1 \<and> last_local_tree q = -2) \<longrightarrow>
              is_valid_checks q = Failed ''p4est invalid empty tree range A'')
       \<and> (\<forall>q. 0 \<le> first_local_tree q \<and> last_local_tree q < 0
              \<and> 0 \<le> mpirank q \<and> mpirank q < int (length (global_first_position q))
              \<and> first_local_tree q < int (length (trees q)) \<longrightarrow>
              is_valid_checks q = Failed ''p4est invalid first tree''
              \<or> is_valid_checks q = Failed ''p4est invalid low quadrant''
              \<or> is_valid_checks q = Failed ''p4est invalid empty tree range B'')
       \<and> (\<forall>qs q l r. q \<in> set qs \<and> is_valid_checks q = Failed l
              \<and> (\<forall>p\<in>set qs. is_valid_checks p \<noteq> Abort) \<longrightarrow>
              p4est_is_valid qs r = Some False)"
proof -
  let ?p = "ps ! rank"
  have r: "0 \<le> mpirank ?p" "mpirank ?p < mpisize ?p" using assms by simp_all
  have z: "nc ! nat (mpirank ?p) = 0" using assms by simp
  note e = partition_local_empty [OF r assms(4) z, of "recv_buf ps nc (nat (mpirank ?p))"]
  have a: "first_local_tree (fst (p4est_partition_given ps nc) ! rank) = -1
       \<and> last_local_tree (fst (p4est_partition_given ps nc) ! rank) = -2"
    using assms(1) e by (simp add: p4est_partition_given_def Let_def)
  have b: "is_valid_checks q = check_trees_and_counts q"
    if "first_local_tree q = -1 \<and> last_local_tree q = -2" for q
    using that by (simp add: is_valid_checks_def check_first_tree_def check_last_tree_def)
  have c: "is_valid_checks q = Failed ''p4est invalid empty tree range A''"
    if "first_local_tree q < 0 \<and> \<not> (first_local_tree q = -1 \<and> last_local_tree q = -2)" for q
    using that negative_first_reported by blast
  have d: "is_valid_checks q = Failed ''p4est invalid first tree''
              \<or> is_valid_checks q = Failed ''p4est invalid low quadrant''
              \<or> is_valid_checks q = Failed ''p4est invalid empty tree range B''"
    if h: "0 \<le> first_local_tree q \<and> last_local_tree q < 0
              \<and> 0 \<le> mpirank q \<and> mpirank q < int (length (global_first_position q))
              \<and> first_local_tree q < int (length (trees q))" for q
  proof -
    have na: "check_first_tree q \<noteq> Abort" using h by (intro check_first_tree_in_bounds) simp_all
    have e: "is_valid_checks q =
      (case check_first_tree q of
         Abort \<Rightarrow> Abort
       | Failed l \<Rightarrow> Failed l
       | Passed u \<Rightarrow> Failed ''p4est invalid empty tree range B'')"
      using h by (intro negative_last_reported) simp_all
    show ?thesis
    proof (cases "check_first_tree q")
      case Abort
      with na show ?thesis by simp
    next
      case (Failed l)
      then have "l = ''p4est invalid first tree'' \<or> l = ''p4est invalid low quadrant''"
        using h by (auto simp: check_first_tree_def Let_def split: if_splits option.splits list.splits)
      with Failed e show ?thesis by auto
    next
      case (Passed u)
      with e show ?thesis by simp
    qed
  qed
  have f: "p4est_is_valid qs r' = Some False"
    if "q \<in> set qs \<and> is_valid_checks q = Failed l \<and> (\<forall>p\<in>set qs. is_valid_checks p \<noteq> Abort)"
    for qs q l r'
    using that failed_process_invalid by blast
  from a b c d f show ?thesis by blast
qed

text \<open>The theorem at the example forest with the new counts \<open>[0, 4, 1]\<close> and rank 0; the
  checks accept an empty process, report the range \<open>(-3, -2)\<close> with the diagnostic A and
  the range \<open>(0, -2)\<close> of a process that holds its first tree with the diagnostic B, and
  \<^verbatim>\<open>p4est_is_valid\<close> returns false for the forest with this process.\<close>

theorem empty_partition_encoding_witness:
  "first_local_tree (fst (p4est_partition_given ex_partition [0, 4, 1]) ! 0) = -1
   \<and> last_local_tree (fst (p4est_partition_given ex_partition [0, 4, 1]) ! 0) = -2
   \<and> is_valid_checks (ex_empty_rank 0) = check_trees_and_counts (ex_empty_rank 0)
   \<and> is_valid_checks ((ex_empty_rank 1)\<lparr>first_local_tree := -3\<rparr>)
       = Failed ''p4est invalid empty tree range A''
   \<and> is_valid_checks ((ex_partition ! 0)\<lparr>last_local_tree := -2\<rparr>)
       = Failed ''p4est invalid empty tree range B''
   \<and> p4est_is_valid [(ex_partition ! 0)\<lparr>last_local_tree := -2\<rparr>, ex_partition ! 1,
        ex_partition ! 2] 1 = Some False"
proof -
  have h: "(0::nat) < length ex_partition" "mpirank (ex_partition ! 0) = int 0"
    "int 0 < mpisize (ex_partition ! 0)" "mpisize (ex_partition ! 0) \<le> int (length [0, 4, 1::int])"
    "[0, 4, 1::int] ! 0 = 0"
    by (simp_all add: ex_partition_def ex_process_def)
  note t = empty_partition_encoding [OF h]
  let ?q = "(ex_partition ! 0)\<lparr>last_local_tree := -2\<rparr>"
  let ?qs = "[?q, ex_partition ! 1, ex_partition ! 2]"
  have 1: "first_local_tree (ex_empty_rank 0) = -1 \<and> last_local_tree (ex_empty_rank 0) = -2"
    by (simp add: ex_empty_rank_def)
  have 2: "first_local_tree ((ex_empty_rank 1)\<lparr>first_local_tree := -3\<rparr>) < 0
      \<and> \<not> (first_local_tree ((ex_empty_rank 1)\<lparr>first_local_tree := -3\<rparr>) = -1
            \<and> last_local_tree ((ex_empty_rank 1)\<lparr>first_local_tree := -3\<rparr>) = -2)"
    by (simp add: ex_empty_rank_def)
  have 3: "0 \<le> first_local_tree ?q \<and> last_local_tree ?q < 0
      \<and> 0 \<le> mpirank ?q \<and> mpirank ?q < int (length (global_first_position ?q))
      \<and> first_local_tree ?q < int (length (trees ?q))"
    by (simp add: ex_partition_def ex_process_def)
  have 4: "is_valid_checks ?q \<noteq> Failed ''p4est invalid first tree''"
    "is_valid_checks ?q \<noteq> Failed ''p4est invalid low quadrant''"
    by code_simp+
  have 5: "\<forall>p\<in>set ?qs. is_valid_checks p \<noteq> Abort" by code_simp
  from t 3 4 have B: "is_valid_checks ?q = Failed ''p4est invalid empty tree range B''" by blast
  have 6: "?q \<in> set ?qs" by simp
  from t 6 B 5 have "p4est_is_valid ?qs 1 = Some False" by blast
  with t 1 2 B show ?thesis by blast
qed

section \<open>The number of quadrants shipped by p4est\_partition\_given\<close>

lemma owner_le_iff:
  assumes "sorted L" "i < length L"
  shows "owner L g \<le> i \<longleftrightarrow> g \<le> L ! i"
  using assms
proof (induction L arbitrary: i)
  case Nil
  then show ?case by simp
next
  case (Cons x xs)
  show ?case
  proof (cases "x < g")
    case True
    show ?thesis
    proof (cases i)
      case 0
      with True show ?thesis by (simp add: owner_def)
    next
      case (Suc j)
      with Cons.prems have "sorted xs" "j < length xs" by simp_all
      from Cons.IH [OF this] True Suc show ?thesis by (simp add: owner_def)
    qed
  next
    case False
    with Cons.prems(1) have "\<forall>l\<in>set xs. \<not> l < g" by auto
    then have "filter (\<lambda>l. l < g) xs = []" by (simp add: filter_empty_conv)
    moreover have "x \<le> (x # xs) ! i" using Cons.prems by (cases i) auto
    ultimately show ?thesis using False by (simp add: owner_def)
  qed
qed

lemma owner_lt_iff:
  assumes "sorted L" "i < length L"
  shows "owner L g < Suc i \<longleftrightarrow> g \<le> L ! i"
  using owner_le_iff [OF assms] by (simp add: less_Suc_eq_le)

lemma indicator_interval:
  fixes lo hi T :: int
  assumes "0 \<le> lo" "hi \<le> T - 1"
  shows "(\<Sum>g\<in>{0..T - 1}. if lo \<le> g \<and> g \<le> hi then 1 else 0) = max 0 (hi - lo + 1)"
proof -
  have "(\<Sum>g\<in>{0..T - 1}. if lo \<le> g \<and> g \<le> hi then 1 else (0::int))
      = int (card {g \<in> {0..T - 1}. lo \<le> g \<and> g \<le> hi})"
    by (simp add: sum.If_cases Int_def)
  also have "{g \<in> {0..T - 1}. lo \<le> g \<and> g \<le> hi} = {lo..hi}" using assms by auto
  also have "int (card {lo..hi}) = max 0 (hi - lo + 1)" by simp
  finally show ?thesis .
qed


lemma shipped_step_arith:
  fixes x y g m c0 c1 :: int
  assumes "y = x + c1" "x = m + c0" "0 \<le> c0" "0 \<le> c1"
  shows "(if g - x \<ge> 0 then min (g - x) c1 else min (- (g - x)) c0)
       = max 0 (min y g - x) + max 0 (x - max m g)"
  using assms by (auto simp: min_def max_def)

lemma shipped_step_count:
  fixes G N nc :: "int list" and T :: int
  assumes len: "length G = P" "length N = P"
    and srt: "sorted G" "sorted N"
    and top: "N ! (P - 1) = T - 1"
    and Glow: "\<forall>i<P. -1 \<le> G ! i"
    and N0: "N ! 0 = nc ! 0 - 1"
    and Nstep: "\<forall>i. Suc i < P \<longrightarrow> N ! Suc i = N ! i + nc ! Suc i"
    and ncpos: "\<forall>i<P. 0 \<le> nc ! i"
    and i: "1 \<le> i" "i < P"
  shows "shipped_step G N nc i =
      (\<Sum>g\<in>{0..T - 1}. (if owner N g = i \<and> owner G g < i then 1 else 0)
                       + (if owner N g = i - 1 \<and> owner G g > i - 1 then 1 else 0))"
proof -
  obtain j where j: "i = Suc j" using i by (cases i) auto
  have jP: "j < P" "Suc j < P" using i j by simp_all
  define Nm where "Nm = (if j = 0 then -1 else N ! (j - 1))"
  have Nj: "N ! j = Nm + nc ! j"
  proof (cases j)
    case 0
    then show ?thesis using N0 by (simp add: Nm_def)
  next
    case (Suc k)
    then show ?thesis using Nstep jP by (simp add: Nm_def)
  qed
  have Ni: "N ! Suc j = N ! j + nc ! Suc j" using Nstep jP by simp
  have Nmono: "N ! a \<le> N ! b" if "a \<le> b" "b < P" for a b
    using srt(2) len that by (simp add: sorted_iff_nth_mono)
  have Ntop: "N ! a \<le> T - 1" if "a < P" for a
    using Nmono [of a "P - 1"] that top by simp
  have Nm_low: "-1 \<le> Nm"
  proof (cases j)
    case 0 then show ?thesis by (simp add: Nm_def)
  next
    case (Suc k)
    have "N ! 0 \<le> N ! k" using Nmono [of 0 k] jP Suc by simp
    moreover have "0 \<le> nc ! 0" using ncpos jP by auto
    then have "-1 \<le> N ! 0" using N0 by simp
    ultimately show ?thesis using Suc by (simp add: Nm_def)
  qed
  have ncj: "0 \<le> nc ! j" "0 \<le> nc ! Suc j" using ncpos jP by auto
  have Nlow: "-1 \<le> N ! j" using Nj Nm_low ncj by simp
  \<comment> \<open>the owner conditions as intervals\<close>
  have oNi: "owner N g = i \<longleftrightarrow> N ! j < g \<and> g \<le> N ! Suc j" for g
  proof -
    have "owner N g = Suc j \<longleftrightarrow> owner N g \<le> Suc j \<and> \<not> owner N g \<le> j" by linarith
    then show ?thesis
      unfolding j using owner_le_iff [OF srt(2), of "Suc j" g] owner_le_iff [OF srt(2), of j g]
        len jP by auto
  qed
  have oGi: "owner G g < i \<longleftrightarrow> g \<le> G ! j" for g
    unfolding j using owner_lt_iff [OF srt(1), of j g] len jP by simp
  have im: "i - Suc 0 = j" using j by simp
  have oNj: "owner N g = j \<longleftrightarrow> Nm < g \<and> g \<le> N ! j" if "0 \<le> g" for g
  proof (cases j)
    case 0
    have "owner N g = 0 \<longleftrightarrow> owner N g \<le> 0" by simp
    then show ?thesis
      using owner_le_iff [OF srt(2), of 0 g] len jP 0 j that by (simp add: Nm_def)
  next
    case (Suc k)
    have "owner N g = Suc k \<longleftrightarrow> owner N g \<le> Suc k \<and> \<not> owner N g \<le> k" by linarith
    then show ?thesis
      using owner_le_iff [OF srt(2), of "Suc k" g] owner_le_iff [OF srt(2), of k g]
        len jP Suc j by (auto simp: Nm_def)
  qed
  have oGj: "owner G g > j \<longleftrightarrow> G ! j < g" for g
    using owner_le_iff [OF srt(1), of j g] len jP j by auto
  \<comment> \<open>the two sums\<close>
  have A: "(\<Sum>g\<in>{0..T - 1}. if owner N g = i \<and> owner G g < i then 1 else 0)
      = max 0 (min (N ! Suc j) (G ! j) - N ! j)"
  proof -
    have "(\<Sum>g\<in>{0..T - 1}. if owner N g = i \<and> owner G g < i then 1 else (0::int))
        = (\<Sum>g\<in>{0..T - 1}. if N ! j + 1 \<le> g \<and> g \<le> min (N ! Suc j) (G ! j) then 1 else 0)"
      by (rule sum.cong) (auto simp: oNi oGi)
    also have "\<dots> = max 0 (min (N ! Suc j) (G ! j) - (N ! j + 1) + 1)"
      using Nlow Ntop [OF jP(2)] by (intro indicator_interval) simp_all
    finally show ?thesis by simp
  qed
  have B: "(\<Sum>g\<in>{0..T - 1}. if owner N g = i - 1 \<and> owner G g > i - 1 then 1 else 0)
      = max 0 (N ! j - max Nm (G ! j))"
  proof -
    have "(\<Sum>g\<in>{0..T - 1}. if owner N g = i - 1 \<and> owner G g > i - 1 then 1 else (0::int))
        = (\<Sum>g\<in>{0..T - 1}. if max Nm (G ! j) + 1 \<le> g \<and> g \<le> N ! j then 1 else 0)"
      by (rule sum.cong) (auto simp: im oNj oGj)
    also have "\<dots> = max 0 (N ! j - (max Nm (G ! j) + 1) + 1)"
      using Nm_low Ntop [OF jP(1)] by (intro indicator_interval) simp_all
    finally show ?thesis by simp
  qed
  have "shipped_step G N nc i = max 0 (min (N ! Suc j) (G ! j) - N ! j) + max 0 (N ! j - max Nm (G ! j))"
    unfolding shipped_step_def Let_def j diff_Suc_1
    by (rule shipped_step_arith [OF Ni Nj ncj])
  then show ?thesis unfolding sum.distrib A B .
qed

lemma owner_change_indicator:
  fixes a b P :: nat
  assumes "a < P" "b < P"
  shows "(\<Sum>i\<in>{1..<P}. (if b = i \<and> a < i then 1 else 0)
                      + (if b = i - 1 \<and> a > i - 1 then 1 else (0::int)))
       = (if a \<noteq> b then 1 else 0)"
proof -
  have 1: "(\<Sum>i\<in>{1..<P}. if b = i \<and> a < i then 1 else (0::int)) = (if a < b then 1 else 0)"
  proof -
    have "(\<Sum>i\<in>{1..<P}. if b = i \<and> a < i then 1 else (0::int))
        = (\<Sum>i\<in>{1..<P}. if i = b then (if a < b then 1 else 0) else 0)"
      by (rule sum.cong) auto
    also have "\<dots> = (if b \<in> {1..<P} then (if a < b then 1 else 0) else 0)"
      by (simp add: sum.delta)
    also have "\<dots> = (if a < b then 1 else 0)" using assms by auto
    finally show ?thesis .
  qed
  have 2: "(\<Sum>i\<in>{1..<P}. if b = i - 1 \<and> a > i - 1 then 1 else (0::int)) = (if b < a then 1 else 0)"
  proof -
    have "(\<Sum>i\<in>{1..<P}. if b = i - 1 \<and> a > i - 1 then 1 else (0::int))
        = (\<Sum>i\<in>{1..<P}. if i = Suc b then (if b < a then 1 else 0) else 0)"
      by (rule sum.cong) auto
    also have "\<dots> = (if Suc b \<in> {1..<P} then (if b < a then 1 else 0) else 0)"
      by (simp add: sum.delta)
    also have "\<dots> = (if b < a then 1 else 0)" using assms by auto
    finally show ?thesis .
  qed
  show ?thesis unfolding sum.distrib 1 2 by auto
qed

lemma shipped_total_count:
  fixes G N nc :: "int list" and T :: int
  assumes len: "length G = P" "length N = P" and P: "0 < P"
    and srt: "sorted G" "sorted N"
    and top: "N ! (P - 1) = T - 1" "G ! (P - 1) = T - 1"
    and Glow: "\<forall>i<P. -1 \<le> G ! i"
    and N0: "N ! 0 = nc ! 0 - 1"
    and Nstep: "\<forall>i. Suc i < P \<longrightarrow> N ! Suc i = N ! i + nc ! Suc i"
    and ncpos: "\<forall>i<P. 0 \<le> nc ! i"
  shows "sum_list (map (shipped_step G N nc) [1..<P])
       = int (length (filter (\<lambda>g. owner G g \<noteq> owner N g) [0..T - 1]))"
proof -
  have own: "owner L g < P" if "sorted L" "length L = P" "L ! (P - 1) = T - 1" "g \<in> {0..T - 1}"
    for L g
  proof -
    have "owner L g \<le> P - 1" using owner_le_iff [of L "P - 1" g] that P by simp
    with P show ?thesis by simp
  qed
  have "sum_list (map (shipped_step G N nc) [1..<P]) = (\<Sum>i\<in>{1..<P}. shipped_step G N nc i)"
    by (simp add: interv_sum_list_conv_sum_set_nat)
  also have "\<dots> = (\<Sum>i\<in>{1..<P}. \<Sum>g\<in>{0..T - 1}.
        (if owner N g = i \<and> owner G g < i then 1 else 0)
        + (if owner N g = i - 1 \<and> owner G g > i - 1 then 1 else 0))"
    by (rule sum.cong [OF refl])
       (simp add: shipped_step_count [OF len srt top(1) Glow N0 Nstep ncpos])
  also have "\<dots> = (\<Sum>g\<in>{0..T - 1}. \<Sum>i\<in>{1..<P}.
        (if owner N g = i \<and> owner G g < i then 1 else 0)
        + (if owner N g = i - 1 \<and> owner G g > i - 1 then 1 else 0))"
    by (rule sum.swap)
  also have "\<dots> = (\<Sum>g\<in>{0..T - 1}. if owner G g \<noteq> owner N g then 1 else 0)"
    by (rule sum.cong [OF refl])
       (rule owner_change_indicator [OF own [OF srt(1) len(1) top(2)] own [OF srt(2) len(2) top(1)]])
  also have "\<dots> = int (card {g \<in> {0..T - 1}. owner G g \<noteq> owner N g})"
    by (simp add: sum.If_cases Int_def)
  also have "\<dots> = int (length (filter (\<lambda>g. owner G g \<noteq> owner N g) [0..T - 1]))"
  proof -
    have "{g \<in> {0..T - 1}. owner G g \<noteq> owner N g}
        = set (filter (\<lambda>g. owner G g \<noteq> owner N g) [0..T - 1])" by auto
    moreover have "distinct (filter (\<lambda>g. owner G g \<noteq> owner N g) [0..T - 1])" by simp
    ultimately show ?thesis using distinct_card by metis
  qed
  finally show ?thesis .
qed

lemma running_last_lower:
  "list_all (\<lambda>c. 0 \<le> c) cs \<Longrightarrow> x \<in> set (running_last acc cs) \<Longrightarrow> acc \<le> x"
proof (induction cs arbitrary: acc)
  case Nil
  then show ?case by simp
next
  case (Cons c cs)
  from Cons.prems(2) consider "x = c + acc" | "x \<in> set (running_last (c + acc) cs)" by auto
  then show ?case
  proof cases
    case 1
    with Cons.prems(1) show ?thesis by simp
  next
    case 2
    from Cons.IH [OF _ 2] Cons.prems(1) show ?thesis by simp
  qed
qed

lemma running_last_sorted:
  "list_all (\<lambda>c. 0 \<le> c) cs \<Longrightarrow> sorted (running_last acc cs)"
proof (induction cs arbitrary: acc)
  case Nil
  then show ?case by simp
next
  case (Cons c cs)
  then show ?case using running_last_lower [of cs _ "c + acc"] by auto
qed

lemma total_quadrants_shipped_sum:
  "total_quadrants_shipped p4 nc =
     sum_list (map (shipped_step (global_last_quad_index p4) (new_global_last_quad_index p4 nc) nc)
                 [1..<nat (mpisize p4)])"
proof -
  let ?G = "global_last_quad_index p4" and ?N = "new_global_last_quad_index p4 nc"
  have "total_quadrants_shipped p4 nc
      = foldl (\<lambda>t i. t + shipped_step ?G ?N nc i) 0 [1..<nat (mpisize p4)]"
    unfolding total_quadrants_shipped_def shipped_step_def Let_def
    by (rule arg_cong [where f = "\<lambda>f. foldl f 0 [1..<nat (mpisize p4)]"]) (auto simp: fun_eq_iff)
  then show ?thesis by (simp add: foldl_sum)
qed

lemma shipped_eq_migrated:
  assumes "partition_input p4 nc"
  shows "total_quadrants_shipped p4 nc = migrated p4 nc"
proof -
  let ?G = "global_last_quad_index p4" and ?N = "new_global_last_quad_index p4 nc"
  let ?P = "nat (mpisize p4)" and ?T = "global_num_quadrants p4"
  let ?gfq = "global_first_quadrant p4"
  from assms have P: "0 < ?P" and lg: "length ?gfq = ?P + 1" and g0: "?gfq ! 0 = 0"
    and sg: "sorted ?gfq" and gl: "last ?gfq = ?T" and ln: "length nc = ?P"
    and pos: "list_all (\<lambda>c. 0 \<le> c) nc" and tot: "sum_list nc = ?T"
    by (simp_all add: partition_input_def)
  have mn: "mpisize p4 \<le> int (length nc)" using ln P by simp
  have lenG: "length ?G = ?P" by (simp add: global_last_quad_index_def)
  have lenN: "length ?N = ?P" using ln by (simp add: new_global_last_quad_index_def)
  have Gnth: "?G ! i = ?gfq ! (i + 1) - 1" if "i < ?P" for i
    using that by (simp add: global_last_quad_index_def)
  have srtG: "sorted ?G"
    unfolding sorted_iff_nth_mono
  proof (intro allI impI)
    fix i j assume ij: "i \<le> j" "j < length ?G"
    then have "?gfq ! (i + 1) \<le> ?gfq ! (j + 1)"
      using sg lg lenG by (simp add: sorted_iff_nth_mono)
    then show "?G ! i \<le> ?G ! j" using ij lenG by (simp add: Gnth)
  qed
  have srtN: "sorted ?N"
    using pos ln unfolding new_global_last_quad_index_def
    by (simp add: running_last_sorted)
  have topN: "?N ! (?P - 1) = ?T - 1"
    using new_last_nth [of "?P - 1" p4 nc] P ln tot mn by simp
  have "last ?gfq = ?gfq ! ?P" using lg by (simp add: last_conv_nth [of ?gfq] flip: length_greater_0_conv)
  then have topG: "?G ! (?P - 1) = ?T - 1" using gl P by (simp add: Gnth)
  have Glow: "\<forall>i<?P. -1 \<le> ?G ! i"
  proof (intro allI impI)
    fix i assume i: "i < ?P"
    then have "?gfq ! 0 \<le> ?gfq ! (i + 1)" using sg lg by (simp add: sorted_iff_nth_mono)
    then show "-1 \<le> ?G ! i" using i g0 by (simp add: Gnth)
  qed
  have N0: "?N ! 0 = nc ! 0 - 1" using new_last_0 [OF P mn] .
  have Nstep: "\<forall>i. Suc i < ?P \<longrightarrow> ?N ! Suc i = ?N ! i + nc ! Suc i"
    using new_last_step [OF _ mn] by blast
  have ncpos: "\<forall>i<?P. 0 \<le> nc ! i" using pos ln by (simp add: list_all_length)
  show ?thesis
    unfolding total_quadrants_shipped_sum migrated_def
    by (rule shipped_total_count [OF lenG lenN P srtG srtN topN topG Glow N0 Nstep ncpos])
qed

lemma migrated_same_globals:
  "same_globals p q \<Longrightarrow> migrated p nc = migrated q nc"
  by (simp add: same_globals_def migrated_def global_last_quad_index_def
      new_global_last_quad_index_def)

text \<open>
  Claim C4.  On a forest whose processes all hold the same partition table, and for new
  counts that are admissible, \<open>p4est_partition_given\<close> returns on every process the same
  number, and that number is the count of the global quadrant indices whose owning process
  differs between the old partition (given by \<open>global_first_quadrant\<close>) and the new one
  (the prefix sums of the new counts).
\<close>

theorem partition_given_returns_migrated:
  assumes "list_all (\<lambda>p4. partition_input p4 nc \<and> same_globals p4 (hd ps)) ps"
  shows "snd (p4est_partition_given ps nc) = replicate (length ps) (migrated (hd ps) nc)"
proof -
  have "total_quadrants_shipped p4 nc = migrated (hd ps) nc" if "p4 \<in> set ps" for p4
  proof -
    from assms that have "partition_input p4 nc" "same_globals p4 (hd ps)"
      by (simp_all add: list_all_iff)
    then show ?thesis using shipped_eq_migrated migrated_same_globals by simp
  qed
  then have "map (\<lambda>p4. total_quadrants_shipped p4 nc) ps = map (\<lambda>_. migrated (hd ps) nc) ps"
    by simp
  then show ?thesis by (simp add: p4est_partition_given_def Let_def map_replicate_const)
qed

theorem partition_given_returns_migrated_witness:
  "list_all (\<lambda>p4. partition_input p4 [0, 4, 1] \<and> same_globals p4 (hd ex_partition)) ex_partition
   \<and> snd (p4est_partition_given ex_partition [0, 4, 1]) = [3, 3, 3]"
proof -
  have h: "list_all (\<lambda>p4. partition_input p4 [0, 4, 1] \<and> same_globals p4 (hd ex_partition))
             ex_partition"
    by code_simp
  have m: "replicate (length ex_partition) (migrated (hd ex_partition) [0, 4, 1]) = [3, 3, 3]"
    by code_simp
  from partition_given_returns_migrated [OF h] m h show ?thesis by simp
qed

section \<open>p4est\_complete\_region on a quadrant and its descendant\<close>

text \<open>
  Claim C3.  The root quadrant \<open>a\<close> and its last child \<open>b\<close> satisfy \<open>a < b\<close>, and the entry
  assertions of \<^verbatim>\<open>p4est_complete_region\<close> hold for them and an empty tree.  With both
  ends included the function emits \<open>a\<close> followed by all four children of \<open>a\<close>: the array
  is sorted, but it holds an ancestor of other elements, and the first pair is not
  consecutive, so it is neither linear nor complete; the function's closing assertion
  \<^verbatim>\<open>p4est_tree_is_complete (R)\<close> does not hold.
\<close>

theorem complete_region_ancestor_input:
  "complete_region_entry (ex_quad 0 0 0) (ex_quad 536870912 536870912 1) (ex_tree [])
   \<and> p4est_quadrant_is_valid (ex_quad 0 0 0)
   \<and> p4est_quadrant_is_valid (ex_quad 536870912 536870912 1)
   \<and> map coords (quadrants (snd (ex_region True)))
       = [(0, 0, 0), (0, 0, 1), (536870912, 0, 1), (0, 536870912, 1), (536870912, 536870912, 1)]
   \<and> p4est_tree_is_sorted (snd (ex_region True))
   \<and> p4est_tree_is_linear (snd (ex_region True)) = False
   \<and> p4est_tree_is_complete (snd (ex_region True)) = False"
  by code_simp

end
